theory Spec2Isabelle
  imports Complex_Main "HOL-Library.Log_Nat"
begin

section \<open>The bisection root finder of the beam-deflection notebook\<close>

text \<open>
  The notebook \<^verbatim>\<open>chapter_2_root_finding/beam_deflection/beam_deflection.ipynb\<close> defines
  three functions: \<^verbatim>\<open>sgn\<close>, \<^verbatim>\<open>bisect\<close> and \<^verbatim>\<open>bisection_iterations\<close>.
  They are embedded here one by one.

  Numbers. The specification's data model takes the interval ends, the function values and
  the tolerance to be real numbers, and so does the first embedding: a number is a
  \<^typ>\<open>real\<close>, and \<^verbatim>\<open>+\<close>, \<^verbatim>\<open>-\<close>, \<^verbatim>\<open>/\<close>, \<^verbatim>\<open>abs\<close> are the exact operations. It
  carries the properties that are about the control flow: which branch is taken, when
  the loop stops, what is returned and counted. The one arithmetic fault Python raises on
  floats, the division by zero, is a branch of it. The iteration counter and the cap are
  Python integers, hence \<^typ>\<open>int\<close>.

  The notebook itself runs on Python floats, which are IEEE-754 binary64 numbers. Where a
  property is decided by what double arithmetic does to \<^verbatim>\<open>(a+b)/2.0\<close> (the sum is rounded,
  and it overflows to infinity), the three functions are embedded a second time, with the
  arithmetic of doubles written out; these definitions carry the suffix \<open>64\<close>.
\<close>

subsection \<open>Errors and the callback\<close>

datatype py_error = ZeroDivisionError

text \<open>
  The callback is called as \<^verbatim>\<open>f(x,L,w,E,I,delta)\<close>. The root finder only hands the five
  parameters through. The specification takes \<^verbatim>\<open>f\<close> to be a total function to the reals.
\<close>

type_synonym fn = "real \<Rightarrow> real \<Rightarrow> real \<Rightarrow> real \<Rightarrow> real \<Rightarrow> real \<Rightarrow> real"

subsection \<open>\<^verbatim>\<open>sgn\<close>\<close>

text \<open>
  \<^verbatim>\<open>
  def sgn(x):
      if x > 0:
          return 1
      elif x < 0:
          return -1
      else:
          return 0
  \<close>
  (named \<open>sgn_py\<close>, since \<open>sgn\<close> is the sign function of HOL).
\<close>

definition sgn_py :: "real \<Rightarrow> int" where
  "sgn_py x = (if x > 0 then 1 else if x < 0 then - 1 else 0)"

subsection \<open>\<^verbatim>\<open>bisect\<close>\<close>

text \<open>
  \<^verbatim>\<open>
  def bisect(f,a,b,L,w,E,I,delta):
      fa = f(a,L,w,E,I,delta)
      fb = f(b,L,w,E,I,delta)
      p = (a+b)/2.0
      fp = f(p,L,w,E,I,delta)
      if sgn(fa) == sgn(fp):
          return p, b
      else:
          return a, p
  \<close>
\<close>

definition bisect ::
  "fn \<Rightarrow> real \<Rightarrow> real \<Rightarrow> real \<Rightarrow> real \<Rightarrow> real \<Rightarrow> real \<Rightarrow> real \<Rightarrow> real \<times> real" where
  "bisect f a b L w E I delta =
     (let fa = f a L w E I delta;
          fb = f b L w E I delta;
          p = (a + b) / 2;
          fp = f p L w E I delta
      in if sgn_py fa = sgn_py fp then (p, b) else (a, p))"

subsection \<open>\<^verbatim>\<open>bisection_iterations\<close>\<close>

text \<open>
  \<^verbatim>\<open>
  def bisection_iterations(f,L,w,E,I,delta,a,b,eps,Nmax):
      n = 0
      xr_old = (a+b)/2.0
      eps_r = 0.0
      while True:
          n = n + 1
          if(n > Nmax):
              print("Maximum iteration number reached!")
              break;
          a,b = bisect(f,a,b,L,w,E,I,delta)
          xr_new = (a+b)/2.0
          eps_r = abs((xr_new-xr_old)/xr_new)*100
          if(eps_r < eps):
              break;
          else:
              xr_old = xr_new
      return ((a+b)/2.0),n
  \<close>
  The local variables that live across iterations are a record; what \<^verbatim>\<open>print\<close> wrote is
  the field \<open>var_stdout\<close>, one entry per printed line.
\<close>

record vars =
  var_a :: real
  var_b :: real
  var_xr_old :: real
  var_eps_r :: real
  var_n :: int
  var_stdout :: "string list"

text \<open>How one pass through the body of \<^verbatim>\<open>while True\<close> ends: at its last statement, or at a \<^verbatim>\<open>break\<close>.\<close>

datatype 'a ctl = Continue (ctl_vars: 'a) | Break (ctl_vars: 'a)

definition loop_body ::
  "fn \<Rightarrow> real \<Rightarrow> real \<Rightarrow> real \<Rightarrow> real \<Rightarrow> real \<Rightarrow> real \<Rightarrow> int \<Rightarrow> vars \<Rightarrow> py_error + vars ctl" where
  "loop_body f L w E I delta eps Nmax s =
     (let s1 = s\<lparr>var_n := var_n s + 1\<rparr> in
      if var_n s1 > Nmax then
        Inr (Break (s1\<lparr>var_stdout := var_stdout s1 @ [''Maximum iteration number reached!'']\<rparr>))
      else
        let (a', b') = bisect f (var_a s1) (var_b s1) L w E I delta;
            s2 = s1\<lparr>var_a := a', var_b := b'\<rparr>;
            xr_new = (var_a s2 + var_b s2) / 2
        in if xr_new = 0 then Inl ZeroDivisionError
           else
             let s3 = s2\<lparr>var_eps_r := \<bar>(xr_new - var_xr_old s2) / xr_new\<bar> * 100\<rparr>
             in if var_eps_r s3 < eps then Inr (Break s3)
                else Inr (Continue (s3\<lparr>var_xr_old := xr_new\<rparr>)))"

function bisection_loop ::
  "fn \<Rightarrow> real \<Rightarrow> real \<Rightarrow> real \<Rightarrow> real \<Rightarrow> real \<Rightarrow> real \<Rightarrow> int \<Rightarrow> vars \<Rightarrow> py_error + vars" where
  "bisection_loop f L w E I delta eps Nmax s =
     (case loop_body f L w E I delta eps Nmax s of
        Inl e \<Rightarrow> Inl e
      | Inr (Break s') \<Rightarrow> Inr s'
      | Inr (Continue s') \<Rightarrow> bisection_loop f L w E I delta eps Nmax s')"
  by pat_completeness auto
termination
proof (relation "measure (\<lambda>(f, L, w, E, I, delta, eps, Nmax, s). nat (Nmax - var_n s))")
  show "wf (measure (\<lambda>(f, L, w, E, I, delta, eps, Nmax, s). nat (Nmax - var_n s)))"
    by simp
next
  fix f :: fn and L w E I delta eps :: real and Nmax :: int and s s' :: vars and c
  assume "loop_body f L w E I delta eps Nmax s = Inr c" and "c = Continue s'"
  then have "var_n s' = var_n s + 1 \<and> var_n s + 1 \<le> Nmax"
    by (auto simp: loop_body_def Let_def split: if_splits prod.splits)
  then show "((f, L, w, E, I, delta, eps, Nmax, s'), (f, L, w, E, I, delta, eps, Nmax, s))
      \<in> measure (\<lambda>(f, L, w, E, I, delta, eps, Nmax, s). nat (Nmax - var_n s))"
    by simp
qed

declare bisection_loop.simps [simp del]

text \<open>
  The value returned is the pair \<^verbatim>\<open>((a+b)/2.0), n\<close>; the model pairs it with what was printed.
\<close>

definition bisection_iterations ::
  "fn \<Rightarrow> real \<Rightarrow> real \<Rightarrow> real \<Rightarrow> real \<Rightarrow> real \<Rightarrow> real \<Rightarrow> real \<Rightarrow> real \<Rightarrow> int
     \<Rightarrow> py_error + ((real \<times> int) \<times> string list)" where
  "bisection_iterations f L w E I delta a b eps Nmax =
     (case bisection_loop f L w E I delta eps Nmax
             \<lparr>var_a = a, var_b = b, var_xr_old = (a + b) / 2, var_eps_r = 0,
              var_n = 0, var_stdout = []\<rparr> of
        Inl e \<Rightarrow> Inl e
      | Inr s \<Rightarrow> Inr (((var_a s + var_b s) / 2, var_n s), var_stdout s))"

subsection \<open>The run, iteration by iteration\<close>

text \<open>
  The working interval after \<open>k\<close> calls of \<^verbatim>\<open>bisect\<close>, starting from \<open>(a, b)\<close>, and its
  midpoint. The loop has no such table; the theorems use it to name the interval and the
  estimate of the \<open>k\<close>-th iteration.
\<close>

fun interval_after ::
  "fn \<Rightarrow> real \<Rightarrow> real \<Rightarrow> real \<Rightarrow> real \<Rightarrow> real \<Rightarrow> nat \<Rightarrow> real \<Rightarrow> real \<Rightarrow> real \<times> real" where
  "interval_after f L w E I delta 0 a b = (a, b)"
| "interval_after f L w E I delta (Suc k) a b =
     (case interval_after f L w E I delta k a b of
        (a', b') \<Rightarrow> bisect f a' b' L w E I delta)"

definition estimate_after ::
  "fn \<Rightarrow> real \<Rightarrow> real \<Rightarrow> real \<Rightarrow> real \<Rightarrow> real \<Rightarrow> nat \<Rightarrow> real \<Rightarrow> real \<Rightarrow> real" where
  "estimate_after f L w E I delta k a b =
     (case interval_after f L w E I delta k a b of (a', b') \<Rightarrow> (a' + b') / 2)"

text \<open>
  The relative error in the specification's words:
  \<^verbatim>\<open>relative_error = |new_midpoint - old_midpoint| / |new_midpoint| * 100\<close>.
  It is compared below with the expression of the source,
  \<^verbatim>\<open>abs((xr_new-xr_old)/xr_new)*100\<close>, which is the one in \<open>loop_body\<close>.
\<close>

definition relative_error :: "real \<Rightarrow> real \<Rightarrow> real" where
  "relative_error new_midpoint old_midpoint =
     \<bar>new_midpoint - old_midpoint\<bar> / \<bar>new_midpoint\<bar> * 100"

subsection \<open>Callbacks for the concrete runs\<close>

text \<open>
  Two callbacks that ignore the five parameters: \<open>x - 3\<close>, and the same function with
  another value at \<open>x = 4\<close>. They are inputs of the concrete runs below, not part of the
  notebook.
\<close>

abbreviation line3 :: fn where
  "line3 \<equiv> (\<lambda>x L w E I delta. x - 3)"

abbreviation line3_but_4 :: fn where
  "line3_but_4 \<equiv> (\<lambda>x L w E I delta. if x = 4 then - 100 else x - 3)"

section \<open>The same functions on IEEE-754 doubles\<close>

subsection \<open>Doubles and rounding\<close>

text \<open>
  A Python float is a finite binary64 number, an infinity or NaN. The sign of a zero is
  not kept: the three functions cannot tell \<^verbatim>\<open>0.0\<close> from \<^verbatim>\<open>-0.0\<close> (comparisons treat them
  alike, and a division by either raises).

  \<open>round_double\<close> is the rounding of IEEE-754 arithmetic, to the nearest double with ties
  to the even significand. A nonzero real \<open>x\<close> lies in the binade of exponent
  \<open>\<lfloor>log\<^sub>2 |x|\<rfloor>\<close>, not below \<open>-1022\<close> (the subnormal numbers share the spacing of the
  lowest binade); the doubles of that binade are the multiples of \<open>ulp x\<close>, which is
  \<open>2\<close> to the exponent minus \<open>52\<close>; \<open>nearest x\<close> is the nearest such multiple; a result
  of magnitude \<open>2\<^sup>1\<^sup>0\<^sup>2\<^sup>4\<close> or more is an overflow. \<open>is_double x\<close> says that \<open>x\<close>
  is one of the finite doubles.
\<close>

datatype double = Finite real | PosInf | NegInf | NaN

definition round_half_even :: "real \<Rightarrow> int" where
  "round_half_even q =
     (let n = \<lfloor>q\<rfloor>; d = q - of_int n
      in if d < 1 / 2 then n else if 1 / 2 < d then n + 1 else if even n then n else n + 1)"

definition exponent :: "real \<Rightarrow> int" where
  "exponent x = (if x = 0 then - 1022 else max \<lfloor>log 2 \<bar>x\<bar>\<rfloor> (- 1022))"

definition ulp :: "real \<Rightarrow> real" where
  "ulp x = 2 powi (exponent x - 52)"

definition nearest :: "real \<Rightarrow> real" where
  "nearest x = (if x = 0 then 0 else of_int (round_half_even (x / ulp x)) * ulp x)"

definition round_double :: "real \<Rightarrow> double" where
  "round_double x =
     (let y = nearest x
      in if 2 ^ 1024 \<le> y then PosInf else if y \<le> - (2 ^ 1024) then NegInf else Finite y)"

definition is_double :: "real \<Rightarrow> bool" where
  "is_double x \<longleftrightarrow> round_double x = Finite x"

subsection \<open>Arithmetic and comparison of doubles\<close>

text \<open>
  The float operations the three functions use: \<^verbatim>\<open>+\<close>, \<^verbatim>\<open>-\<close>, \<^verbatim>\<open>*\<close>, \<^verbatim>\<open>/\<close>, \<^verbatim>\<open>abs\<close>,
  \<^verbatim>\<open><\<close> and \<^verbatim>\<open>>\<close>. On finite operands the exact result is rounded; infinities and NaN
  follow IEEE-754 (a comparison with NaN is false). Python's \<^verbatim>\<open>/\<close> raises
  \<^verbatim>\<open>ZeroDivisionError\<close> on a zero divisor, whatever the dividend: that is \<open>py_truediv\<close>.
  \<open>float_div\<close> is the quotient itself; for a zero divisor, which no run passes to it,
  it is NaN.
\<close>

fun float_neg :: "double \<Rightarrow> double" where
  "float_neg (Finite x) = Finite (- x)"
| "float_neg PosInf = NegInf"
| "float_neg NegInf = PosInf"
| "float_neg NaN = NaN"

fun float_abs :: "double \<Rightarrow> double" where
  "float_abs (Finite x) = Finite \<bar>x\<bar>"
| "float_abs PosInf = PosInf"
| "float_abs NegInf = PosInf"
| "float_abs NaN = NaN"

fun float_add :: "double \<Rightarrow> double \<Rightarrow> double" where
  "float_add (Finite x) (Finite y) = round_double (x + y)"
| "float_add NaN y = NaN"
| "float_add x NaN = NaN"
| "float_add PosInf NegInf = NaN"
| "float_add NegInf PosInf = NaN"
| "float_add PosInf y = PosInf"
| "float_add x PosInf = PosInf"
| "float_add NegInf y = NegInf"
| "float_add x NegInf = NegInf"

definition float_sub :: "double \<Rightarrow> double \<Rightarrow> double" where
  "float_sub x y = float_add x (float_neg y)"

fun float_mul :: "double \<Rightarrow> double \<Rightarrow> double" where
  "float_mul (Finite x) (Finite y) = round_double (x * y)"
| "float_mul NaN y = NaN"
| "float_mul x NaN = NaN"
| "float_mul (Finite x) y =
     (if x = 0 then NaN else if 0 < x then y else float_neg y)"
| "float_mul x (Finite y) =
     (if y = 0 then NaN else if 0 < y then x else float_neg x)"
| "float_mul PosInf y = y"
| "float_mul NegInf y = float_neg y"

fun float_div :: "double \<Rightarrow> double \<Rightarrow> double" where
  "float_div (Finite x) (Finite y) = (if y = 0 then NaN else round_double (x / y))"
| "float_div NaN y = NaN"
| "float_div x NaN = NaN"
| "float_div (Finite x) y = Finite 0"
| "float_div x (Finite y) = (if y = 0 then NaN else if 0 < y then x else float_neg x)"
| "float_div x y = NaN"

definition py_truediv :: "double \<Rightarrow> double \<Rightarrow> py_error + double" where
  "py_truediv x y = (if y = Finite 0 then Inl ZeroDivisionError else Inr (float_div x y))"

fun float_lt :: "double \<Rightarrow> double \<Rightarrow> bool" where
  "float_lt (Finite x) (Finite y) \<longleftrightarrow> x < y"
| "float_lt NaN y \<longleftrightarrow> False"
| "float_lt x NaN \<longleftrightarrow> False"
| "float_lt x NegInf \<longleftrightarrow> False"
| "float_lt PosInf y \<longleftrightarrow> False"
| "float_lt x y \<longleftrightarrow> True"

definition float_gt :: "double \<Rightarrow> double \<Rightarrow> bool" where
  "float_gt x y = float_lt y x"

subsection \<open>\<^verbatim>\<open>sgn\<close>, \<^verbatim>\<open>bisect\<close> and \<^verbatim>\<open>bisection_iterations\<close> on doubles\<close>

text \<open>
  The same three functions, statement by statement, with the float operations in place of
  the exact ones. The literals \<^verbatim>\<open>2.0\<close>, \<^verbatim>\<open>0.0\<close> and \<^verbatim>\<open>100\<close> are doubles. The callback
  takes and returns doubles. \<open>step_at c\<close> is a callback for the concrete runs: \<open>-1.0\<close>
  left of \<open>c\<close> and \<open>1.0\<close> from \<open>c\<close> on.
\<close>

type_synonym fn64 = "double \<Rightarrow> double \<Rightarrow> double \<Rightarrow> double \<Rightarrow> double \<Rightarrow> double \<Rightarrow> double"

definition sgn64 :: "double \<Rightarrow> int" where
  "sgn64 x = (if float_gt x (Finite 0) then 1 else if float_lt x (Finite 0) then - 1 else 0)"

definition bisect64 ::
  "fn64 \<Rightarrow> double \<Rightarrow> double \<Rightarrow> double \<Rightarrow> double \<Rightarrow> double \<Rightarrow> double \<Rightarrow> double
     \<Rightarrow> double \<times> double" where
  "bisect64 f a b L w E I delta =
     (let fa = f a L w E I delta;
          fb = f b L w E I delta;
          p = float_div (float_add a b) (Finite 2);
          fp = f p L w E I delta
      in if sgn64 fa = sgn64 fp then (p, b) else (a, p))"

record vars64 =
  var64_a :: double
  var64_b :: double
  var64_xr_old :: double
  var64_eps_r :: double
  var64_n :: int
  var64_stdout :: "string list"

definition loop_body64 ::
  "fn64 \<Rightarrow> double \<Rightarrow> double \<Rightarrow> double \<Rightarrow> double \<Rightarrow> double \<Rightarrow> double \<Rightarrow> int \<Rightarrow> vars64
     \<Rightarrow> py_error + vars64 ctl" where
  "loop_body64 f L w E I delta eps Nmax s =
     (let s1 = s\<lparr>var64_n := var64_n s + 1\<rparr> in
      if var64_n s1 > Nmax then
        Inr (Break (s1\<lparr>var64_stdout :=
                          var64_stdout s1 @ [''Maximum iteration number reached!'']\<rparr>))
      else
        let (a', b') = bisect64 f (var64_a s1) (var64_b s1) L w E I delta;
            s2 = s1\<lparr>var64_a := a', var64_b := b'\<rparr>;
            xr_new = float_div (float_add (var64_a s2) (var64_b s2)) (Finite 2)
        in case py_truediv (float_sub xr_new (var64_xr_old s2)) xr_new of
             Inl e \<Rightarrow> Inl e
           | Inr q \<Rightarrow>
               let s3 = s2\<lparr>var64_eps_r := float_mul (float_abs q) (Finite 100)\<rparr>
               in if float_lt (var64_eps_r s3) eps then Inr (Break s3)
                  else Inr (Continue (s3\<lparr>var64_xr_old := xr_new\<rparr>)))"

function bisection_loop64 ::
  "fn64 \<Rightarrow> double \<Rightarrow> double \<Rightarrow> double \<Rightarrow> double \<Rightarrow> double \<Rightarrow> double \<Rightarrow> int \<Rightarrow> vars64
     \<Rightarrow> py_error + vars64" where
  "bisection_loop64 f L w E I delta eps Nmax s =
     (case loop_body64 f L w E I delta eps Nmax s of
        Inl e \<Rightarrow> Inl e
      | Inr (Break s') \<Rightarrow> Inr s'
      | Inr (Continue s') \<Rightarrow> bisection_loop64 f L w E I delta eps Nmax s')"
  by pat_completeness auto
termination
proof (relation "measure (\<lambda>(f, L, w, E, I, delta, eps, Nmax, s). nat (Nmax - var64_n s))")
  show "wf (measure (\<lambda>(f, L, w, E, I, delta, eps, Nmax, s). nat (Nmax - var64_n s)))"
    by simp
next
  fix f :: fn64 and L w E I delta eps :: double and Nmax :: int and s s' :: vars64 and c
  assume "loop_body64 f L w E I delta eps Nmax s = Inr c" and "c = Continue s'"
  then have "var64_n s' = var64_n s + 1 \<and> var64_n s + 1 \<le> Nmax"
    by (auto simp: loop_body64_def Let_def split: if_splits prod.splits sum.splits)
  then show "((f, L, w, E, I, delta, eps, Nmax, s'), (f, L, w, E, I, delta, eps, Nmax, s))
      \<in> measure (\<lambda>(f, L, w, E, I, delta, eps, Nmax, s). nat (Nmax - var64_n s))"
    by simp
qed

declare bisection_loop64.simps [simp del]

definition bisection_iterations64 ::
  "fn64 \<Rightarrow> double \<Rightarrow> double \<Rightarrow> double \<Rightarrow> double \<Rightarrow> double \<Rightarrow> double \<Rightarrow> double \<Rightarrow> double \<Rightarrow> int
     \<Rightarrow> py_error + ((double \<times> int) \<times> string list)" where
  "bisection_iterations64 f L w E I delta a b eps Nmax =
     (case bisection_loop64 f L w E I delta eps Nmax
             \<lparr>var64_a = a, var64_b = b,
              var64_xr_old = float_div (float_add a b) (Finite 2),
              var64_eps_r = Finite 0, var64_n = 0, var64_stdout = []\<rparr> of
        Inl e \<Rightarrow> Inl e
      | Inr s \<Rightarrow>
          Inr ((float_div (float_add (var64_a s) (var64_b s)) (Finite 2), var64_n s),
               var64_stdout s))"

abbreviation step_at :: "real \<Rightarrow> fn64" where
  "step_at c \<equiv> (\<lambda>x L w E I delta. if float_lt x (Finite c) then Finite (- 1) else Finite 1)"

section \<open>One call of \<^verbatim>\<open>bisect\<close>\<close>

lemma sgn_py_eq_iff: "sgn_py x = sgn_py y \<longleftrightarrow> sgn x = sgn y"
  by (simp add: sgn_py_def sgn_real_def)

lemma bisect_cases:
  "bisect f a b L w E I delta =
     (if sgn_py (f a L w E I delta) = sgn_py (f ((a + b) / 2) L w E I delta)
      then ((a + b) / 2, b) else (a, (a + b) / 2))"
  by (simp add: bisect_def Let_def)

lemma loop_body_interval:
  assumes "var_n s < Nmax" and "loop_body f L w E I delta eps Nmax s = Inr c"
  shows "(var_a (ctl_vars c), var_b (ctl_vars c)) = bisect f (var_a s) (var_b s) L w E I delta"
  using assms by (auto simp: loop_body_def Let_def split: if_splits prod.splits)

text \<open>
  C1. One call of \<open>bisect\<close> on \<open>(a, b)\<close> takes the midpoint \<open>m = (a + b) / 2\<close> and returns
  \<open>(m, b)\<close> if the sign of \<open>f a\<close> equals the sign of \<open>f m\<close>, and \<open>(a, m)\<close> otherwise, for
  all reals \<open>a\<close>, \<open>b\<close> and every \<open>f\<close>; the sign is the mathematical one (\<open>sgn\<close> of HOL),
  which the three-way \<open>sgn_py\<close> of the notebook agrees with. And every iteration of the
  loop that is under the cap and raises nothing replaces its working interval by what
  \<open>bisect\<close> returns on it.
\<close>

theorem bisect_step:
  "bisect f a b L w E I delta =
     (let m = (a + b) / 2 in
      if sgn (f a L w E I delta) = sgn (f m L w E I delta) then (m, b) else (a, m))
   \<and> (\<forall>eps Nmax s c.
        var_n s < Nmax \<and> loop_body f L w E I delta eps Nmax s = Inr c \<longrightarrow>
        (var_a (ctl_vars c), var_b (ctl_vars c)) = bisect f (var_a s) (var_b s) L w E I delta)"
proof (intro conjI allI impI)
  show "bisect f a b L w E I delta =
     (let m = (a + b) / 2 in
      if sgn (f a L w E I delta) = sgn (f m L w E I delta) then (m, b) else (a, m))"
    by (simp add: bisect_cases sgn_py_eq_iff Let_def)
next
  fix eps Nmax s c
  assume "var_n s < Nmax \<and> loop_body f L w E I delta eps Nmax s = Inr c"
  then show "(var_a (ctl_vars c), var_b (ctl_vars c))
      = bisect f (var_a s) (var_b s) L w E I delta"
    using loop_body_interval by blast
qed

theorem bisect_step_witness:
  "bisect line3 0 4 1 1 1 1 0 = (2, 4)
   \<and> var_n \<lparr>var_a = 0, var_b = 4, var_xr_old = 2, var_eps_r = 0, var_n = 0, var_stdout = []\<rparr> < 2
   \<and> loop_body line3 1 1 1 1 0 (1 / 10000) 2
        \<lparr>var_a = 0, var_b = 4, var_xr_old = 2, var_eps_r = 0, var_n = 0, var_stdout = []\<rparr>
      = Inr (Continue \<lparr>var_a = 2, var_b = 4, var_xr_old = 3, var_eps_r = 100 / 3, var_n = 1,
                       var_stdout = []\<rparr>)
   \<and> (var_a (ctl_vars (Continue \<lparr>var_a = 2, var_b = 4, var_xr_old = 3, var_eps_r = 100 / 3,
                                   var_n = 1, var_stdout = []\<rparr>)),
       var_b (ctl_vars (Continue \<lparr>var_a = 2, var_b = 4, var_xr_old = 3, var_eps_r = 100 / 3,
                                   var_n = 1, var_stdout = []\<rparr>)))
      = bisect line3 0 4 1 1 1 1 0"
proof -
  let ?s = "\<lparr>var_a = 0, var_b = 4, var_xr_old = 2, var_eps_r = 0, var_n = 0, var_stdout = []\<rparr>"
  let ?c = "Continue \<lparr>var_a = 2, var_b = 4, var_xr_old = 3, var_eps_r = 100 / 3, var_n = 1,
                      var_stdout = []\<rparr>"
  note both = bisect_step [of line3 0 4 1 1 1 1 0]
  have b: "bisect line3 0 4 1 1 1 1 0 = (2, 4)"
    using both [THEN conjunct1] by (simp add: Let_def)
  have n: "var_n ?s < 2" by simp
  have l: "loop_body line3 1 1 1 1 0 (1 / 10000) 2 ?s = Inr ?c"
    by (simp add: loop_body_def Let_def b)
  have "(var_a (ctl_vars ?c), var_b (ctl_vars ?c))
      = bisect line3 (var_a ?s) (var_b ?s) 1 1 1 1 0"
    using both [THEN conjunct2, rule_format, of ?s 2 "1 / 10000" ?c] n l by blast
  then have i: "(var_a (ctl_vars ?c), var_b (ctl_vars ?c)) = bisect line3 0 4 1 1 1 1 0"
    by simp
  show ?thesis by (intro conjI b n l i)
qed

text \<open>
  C6. If \<open>f\<close> is exactly zero at the midpoint \<open>m = (a + b) / 2\<close> and nonzero at \<open>a\<close>, then
  \<open>sgn_py (f m)\<close> is \<open>0\<close>, which differs from \<open>sgn_py (f a)\<close>, the else branch is taken and
  \<open>bisect\<close> returns the lower half \<open>(a, m)\<close>: an exact root is not detected.
\<close>

theorem bisect_exact_root_at_midpoint:
  assumes "f ((a + b) / 2) L w E I delta = 0" and "f a L w E I delta \<noteq> 0"
  shows "sgn_py (f ((a + b) / 2) L w E I delta) = 0
       \<and> sgn_py (f ((a + b) / 2) L w E I delta) \<noteq> sgn_py (f a L w E I delta)
       \<and> bisect f a b L w E I delta = (a, (a + b) / 2)"
  using assms by (simp add: bisect_cases sgn_py_def)

theorem bisect_exact_root_at_midpoint_witness:
  "line3 ((2 + 4) / 2) 1 1 1 1 0 = 0
   \<and> line3 2 1 1 1 1 0 \<noteq> 0
   \<and> sgn_py (line3 ((2 + 4) / 2) 1 1 1 1 0) = 0
   \<and> sgn_py (line3 2 1 1 1 1 0) = - 1
   \<and> bisect line3 2 4 1 1 1 1 0 = (2, 3)"
  using bisect_exact_root_at_midpoint [of line3 2 4 1 1 1 1 0]
  by (simp add: sgn_py_def)

text \<open>
  C10. What \<open>bisect\<close> returns does not depend on the value of the callback at the right
  end \<open>b\<close>: two callbacks that agree at \<open>a\<close> and at the midpoint give the same interval
  (\<^verbatim>\<open>fb\<close> is computed and never read).
\<close>

theorem bisect_ignores_right_end_value:
  assumes "f a L w E I delta = g a L w E I delta"
      and "f ((a + b) / 2) L w E I delta = g ((a + b) / 2) L w E I delta"
  shows "bisect f a b L w E I delta = bisect g a b L w E I delta"
  using assms by (simp add: bisect_cases)

theorem bisect_ignores_right_end_value_witness:
  "line3 0 1 1 1 1 0 = line3_but_4 0 1 1 1 1 0
   \<and> line3 ((0 + 4) / 2) 1 1 1 1 0 = line3_but_4 ((0 + 4) / 2) 1 1 1 1 0
   \<and> line3 4 1 1 1 1 0 \<noteq> line3_but_4 4 1 1 1 1 0
   \<and> bisect line3 0 4 1 1 1 1 0 = bisect line3_but_4 0 4 1 1 1 1 0"
  using bisect_ignores_right_end_value [of line3 0 1 1 1 1 0 line3_but_4 4]
  by simp

section \<open>One pass through the loop body\<close>

text \<open>The expression of the source for the relative error is the specification's formula.\<close>

lemma relative_error_source:
  "\<bar>(xr_new - xr_old) / xr_new\<bar> * 100 = relative_error xr_new xr_old"
  by (simp add: relative_error_def abs_divide)

lemma loop_body_cap:
  assumes "Nmax < var_n s + 1"
  shows "loop_body f L w E I delta eps Nmax s =
     Inr (Break (s\<lparr>var_n := var_n s + 1,
                    var_stdout := var_stdout s @ [''Maximum iteration number reached!'']\<rparr>))"
  using assms by (simp add: loop_body_def Let_def)

lemma loop_body_run:
  assumes "var_n s + 1 \<le> Nmax"
      and "bisect f (var_a s) (var_b s) L w E I delta = (a', b')"
  shows "loop_body f L w E I delta eps Nmax s =
     (if (a' + b') / 2 = 0 then Inl ZeroDivisionError
      else if relative_error ((a' + b') / 2) (var_xr_old s) < eps
      then Inr (Break (s\<lparr>var_n := var_n s + 1, var_a := a', var_b := b',
                          var_eps_r := relative_error ((a' + b') / 2) (var_xr_old s)\<rparr>))
      else Inr (Continue (s\<lparr>var_n := var_n s + 1, var_a := a', var_b := b',
                             var_eps_r := relative_error ((a' + b') / 2) (var_xr_old s),
                             var_xr_old := (a' + b') / 2\<rparr>)))"
  unfolding loop_body_def relative_error_source using assms by (simp add: Let_def)

text \<open>
  C2. In an iteration under the cap, the interval is replaced by what \<open>bisect\<close> returns,
  the new midpoint \<open>xr_new\<close> is taken, and the relative error stored in \<open>eps_r\<close> is
  \<open>|xr_new - xr_old| / |xr_new| * 100\<close>. If it is strictly below \<open>eps\<close> the body breaks and
  the loop returns the variables as they are then, with no further call of \<open>bisect\<close>;
  otherwise the body ends normally, \<open>xr_old\<close> becomes \<open>xr_new\<close> and the loop goes on.
  The midpoint is taken to be nonzero: at a zero midpoint the relative error does not exist
  and the source raises (see C8).
\<close>

theorem loop_stopping_rule:
  assumes "var_n s < Nmax"
      and "bisect f (var_a s) (var_b s) L w E I delta = (a', b')"
      and "xr_new = (a' + b') / 2" and "xr_new \<noteq> 0"
  shows "(relative_error xr_new (var_xr_old s) < eps \<longrightarrow>
            loop_body f L w E I delta eps Nmax s =
              Inr (Break (s\<lparr>var_n := var_n s + 1, var_a := a', var_b := b',
                             var_eps_r := relative_error xr_new (var_xr_old s)\<rparr>))
          \<and> bisection_loop f L w E I delta eps Nmax s =
              Inr (s\<lparr>var_n := var_n s + 1, var_a := a', var_b := b',
                      var_eps_r := relative_error xr_new (var_xr_old s)\<rparr>))
       \<and> (\<not> relative_error xr_new (var_xr_old s) < eps \<longrightarrow>
            loop_body f L w E I delta eps Nmax s =
              Inr (Continue (s\<lparr>var_n := var_n s + 1, var_a := a', var_b := b',
                                var_eps_r := relative_error xr_new (var_xr_old s),
                                var_xr_old := xr_new\<rparr>))
          \<and> bisection_loop f L w E I delta eps Nmax s =
              bisection_loop f L w E I delta eps Nmax
                (s\<lparr>var_n := var_n s + 1, var_a := a', var_b := b',
                   var_eps_r := relative_error xr_new (var_xr_old s),
                   var_xr_old := xr_new\<rparr>))"
proof -
  have under: "var_n s + 1 \<le> Nmax" using assms(1) by simp
  have body: "loop_body f L w E I delta eps Nmax s =
     (if relative_error xr_new (var_xr_old s) < eps
      then Inr (Break (s\<lparr>var_n := var_n s + 1, var_a := a', var_b := b',
                          var_eps_r := relative_error xr_new (var_xr_old s)\<rparr>))
      else Inr (Continue (s\<lparr>var_n := var_n s + 1, var_a := a', var_b := b',
                             var_eps_r := relative_error xr_new (var_xr_old s),
                             var_xr_old := xr_new\<rparr>)))"
    using loop_body_run [OF under assms(2), of eps] assms(4) unfolding assms(3) by simp
  have loop: "bisection_loop f L w E I delta eps Nmax s =
      (case loop_body f L w E I delta eps Nmax s of
         Inl e \<Rightarrow> Inl e
       | Inr (Break s') \<Rightarrow> Inr s'
       | Inr (Continue s') \<Rightarrow> bisection_loop f L w E I delta eps Nmax s')"
    by (rule bisection_loop.simps)
  show ?thesis
  proof (cases "relative_error xr_new (var_xr_old s) < eps")
    case True
    then show ?thesis by (simp add: loop body)
  next
    case False
    then show ?thesis by (simp add: loop body)
  qed
qed

theorem loop_stopping_rule_witness:
  "var_n \<lparr>var_a = 0, var_b = 4, var_xr_old = 2, var_eps_r = 0, var_n = 0, var_stdout = []\<rparr> < 2
   \<and> bisect line3 0 4 1 1 1 1 0 = (2, 4) \<and> (3::real) = (2 + 4) / 2 \<and> (3::real) \<noteq> 0
   \<and> relative_error 3 2 = 100 / 3
   \<and> loop_body line3 1 1 1 1 0 50 2
        \<lparr>var_a = 0, var_b = 4, var_xr_old = 2, var_eps_r = 0, var_n = 0, var_stdout = []\<rparr>
      = Inr (Break \<lparr>var_a = 2, var_b = 4, var_xr_old = 2, var_eps_r = 100 / 3, var_n = 1,
                    var_stdout = []\<rparr>)
   \<and> bisection_loop line3 1 1 1 1 0 50 2
        \<lparr>var_a = 0, var_b = 4, var_xr_old = 2, var_eps_r = 0, var_n = 0, var_stdout = []\<rparr>
      = Inr \<lparr>var_a = 2, var_b = 4, var_xr_old = 2, var_eps_r = 100 / 3, var_n = 1,
             var_stdout = []\<rparr>
   \<and> loop_body line3 1 1 1 1 0 (1 / 10000) 2
        \<lparr>var_a = 0, var_b = 4, var_xr_old = 2, var_eps_r = 0, var_n = 0, var_stdout = []\<rparr>
      = Inr (Continue \<lparr>var_a = 2, var_b = 4, var_xr_old = 3, var_eps_r = 100 / 3, var_n = 1,
                       var_stdout = []\<rparr>)"
proof -
  let ?s = "\<lparr>var_a = 0, var_b = 4, var_xr_old = 2, var_eps_r = 0, var_n = 0, var_stdout = []\<rparr>"
  have n: "var_n ?s < 2" by simp
  have b: "bisect line3 (var_a ?s) (var_b ?s) 1 1 1 1 0 = (2, 4)"
    by (simp add: bisect_def sgn_py_def)
  have m: "(3::real) = (2 + 4) / 2" and z: "(3::real) \<noteq> 0" by simp_all
  have r: "relative_error 3 (var_xr_old ?s) = 100 / 3" by (simp add: relative_error_def)
  have r1: "relative_error 3 (var_xr_old ?s) < 50"
    and r2: "\<not> relative_error 3 (var_xr_old ?s) < 1 / 10000"
    unfolding r by simp_all
  note stop = loop_stopping_rule [OF n b m z, of 50, THEN conjunct1, rule_format, OF r1]
  note cont = loop_stopping_rule [OF n b m z, of "1 / 10000", THEN conjunct2, rule_format, OF r2]
  have 1: "loop_body line3 1 1 1 1 0 50 2 ?s
      = Inr (Break \<lparr>var_a = 2, var_b = 4, var_xr_old = 2, var_eps_r = 100 / 3, var_n = 1,
                    var_stdout = []\<rparr>)"
    using stop [THEN conjunct1] unfolding r by simp
  have 2: "bisection_loop line3 1 1 1 1 0 50 2 ?s
      = Inr \<lparr>var_a = 2, var_b = 4, var_xr_old = 2, var_eps_r = 100 / 3, var_n = 1,
             var_stdout = []\<rparr>"
    using stop [THEN conjunct2] unfolding r by simp
  have 3: "loop_body line3 1 1 1 1 0 (1 / 10000) 2 ?s
      = Inr (Continue \<lparr>var_a = 2, var_b = 4, var_xr_old = 3, var_eps_r = 100 / 3, var_n = 1,
                       var_stdout = []\<rparr>)"
    using cont [THEN conjunct1] unfolding r by simp
  have b': "bisect line3 0 4 1 1 1 1 0 = (2, 4)" using b by simp
  have r': "relative_error 3 2 = 100 / 3" using r by simp
  show ?thesis
    by (intro conjI n b' m z r' 1 2 3)
qed

section \<open>The whole run\<close>

text \<open>
  Three things can happen to the loop entered after \<open>k\<close> iterations: a midpoint is zero
  at some later iteration \<open>j\<close> under the cap and the division raises; or the relative error
  drops below \<open>eps\<close> at some iteration \<open>j\<close> under the cap, and the loop returns the
  \<open>j\<close>-th interval and the count \<open>j\<close>; or neither happens up to the cap, and the loop
  prints its message and returns the interval it has, with the count one above.
\<close>

lemma bisection_loop_outcome:
  fixes f :: fn and L w E I delta eps a b :: real and Nmax :: int
  defines "Iv \<equiv> \<lambda>k. interval_after f L w E I delta k a b"
      and "est \<equiv> \<lambda>k. estimate_after f L w E I delta k a b"
  defines "go \<equiv> \<lambda>i. est i \<noteq> 0 \<and> \<not> relative_error (est i) (est (i - 1)) < eps"
  assumes "var_n s = int k" and "(var_a s, var_b s) = Iv k" and "var_xr_old s = est k"
  shows "(\<exists>j. k < j \<and> int j \<le> Nmax \<and> (\<forall>i. k < i \<and> i < j \<longrightarrow> go i) \<and> est j = 0
            \<and> bisection_loop f L w E I delta eps Nmax s = Inl ZeroDivisionError)
       \<or> (\<exists>j s'. k < j \<and> int j \<le> Nmax \<and> (\<forall>i. k < i \<and> i < j \<longrightarrow> go i) \<and> est j \<noteq> 0
            \<and> relative_error (est j) (est (j - 1)) < eps
            \<and> bisection_loop f L w E I delta eps Nmax s = Inr s'
            \<and> var_n s' = int j \<and> (var_a s', var_b s') = Iv j
            \<and> var_stdout s' = var_stdout s)
       \<or> ((\<forall>i. k < i \<and> int i \<le> Nmax \<longrightarrow> go i)
            \<and> (\<exists>s'. bisection_loop f L w E I delta eps Nmax s = Inr s'
                 \<and> var_n s' = int (max k (nat Nmax)) + 1
                 \<and> (var_a s', var_b s') = Iv (max k (nat Nmax))
                 \<and> var_stdout s' = var_stdout s @ [''Maximum iteration number reached!'']))"
  using assms(4-6)
proof (induction "nat (Nmax - int k)" arbitrary: k s)
  case 0
  then have cap: "Nmax < var_n s + 1" by simp
  have "bisection_loop f L w E I delta eps Nmax s =
      Inr (s\<lparr>var_n := var_n s + 1,
             var_stdout := var_stdout s @ [''Maximum iteration number reached!'']\<rparr>)"
    by (subst bisection_loop.simps) (simp add: loop_body_cap [OF cap])
  moreover have "max k (nat Nmax) = k" using 0 by simp
  moreover have "\<forall>i. k < i \<and> int i \<le> Nmax \<longrightarrow> go i" using 0 by auto
  ultimately show ?case using 0 by simp
next
  case (Suc d)
  then have under: "var_n s + 1 \<le> Nmax" by simp
  obtain a' b' where bs: "bisect f (var_a s) (var_b s) L w E I delta = (a', b')"
    by force
  have Iv_Suc: "Iv (Suc k) = (a', b')"
    using bs by (simp add: Iv_def Suc.prems(2) [unfolded Iv_def, symmetric])
  have est_Suc: "est (Suc k) = (a' + b') / 2"
    using Iv_Suc by (simp add: est_def Iv_def estimate_after_def del: interval_after.simps)
  note body = loop_body_run [OF under bs, of eps]
  consider (zero) "est (Suc k) = 0"
    | (stop) "est (Suc k) \<noteq> 0" "relative_error (est (Suc k)) (est k) < eps"
    | (cont) "go (Suc k)"
    by (auto simp: go_def)
  then show ?case
  proof cases
    case zero
    then have "bisection_loop f L w E I delta eps Nmax s = Inl ZeroDivisionError"
      by (subst bisection_loop.simps) (simp add: body est_Suc)
    moreover have "k < Suc k \<and> int (Suc k) \<le> Nmax \<and> (\<forall>i. k < i \<and> i < Suc k \<longrightarrow> go i)"
      using under Suc.prems(1) by auto
    ultimately show ?thesis using zero by blast
  next
    case stop
    let ?s' = "s\<lparr>var_n := var_n s + 1, var_a := a', var_b := b',
                  var_eps_r := relative_error ((a' + b') / 2) (var_xr_old s)\<rparr>"
    have "bisection_loop f L w E I delta eps Nmax s = Inr ?s'"
      using stop by (subst bisection_loop.simps) (simp add: body est_Suc Suc.prems(3))
    moreover have "var_n ?s' = int (Suc k)" "(var_a ?s', var_b ?s') = Iv (Suc k)"
      "var_stdout ?s' = var_stdout s"
      using Suc.prems(1) Iv_Suc by simp_all
    moreover have "k < Suc k \<and> int (Suc k) \<le> Nmax \<and> (\<forall>i. k < i \<and> i < Suc k \<longrightarrow> go i)"
      using under Suc.prems(1) by auto
    moreover have "relative_error (est (Suc k)) (est (Suc k - 1)) < eps"
      using stop by simp
    ultimately show ?thesis using stop(1) by blast
  next
    case cont
    let ?s' = "s\<lparr>var_n := var_n s + 1, var_a := a', var_b := b',
                  var_eps_r := relative_error ((a' + b') / 2) (var_xr_old s),
                  var_xr_old := (a' + b') / 2\<rparr>"
    have step: "bisection_loop f L w E I delta eps Nmax s
        = bisection_loop f L w E I delta eps Nmax ?s'"
      using cont
      by (subst bisection_loop.simps) (simp add: body est_Suc Suc.prems(3) go_def)
    have d: "d = nat (Nmax - int (Suc k))" using Suc.hyps(2) by simp
    have e: "var_n ?s' = int (Suc k)" "(var_a ?s', var_b ?s') = Iv (Suc k)"
      "var_xr_old ?s' = est (Suc k)"
      using Suc.prems(1) Iv_Suc est_Suc by simp_all
    have ext: "(\<forall>i. Suc k < i \<and> P i \<longrightarrow> go i) \<Longrightarrow> (\<forall>i. k < i \<and> P i \<longrightarrow> go i)" for P
      using cont by (metis Suc_lessI)
    have mx: "max (Suc k) (nat Nmax) = max k (nat Nmax)" using under Suc.prems(1) by simp
    have out: "var_stdout ?s' = var_stdout s" by simp
    from Suc.hyps(1) [OF d e]
    consider (A) j where "Suc k < j" "int j \<le> Nmax" "\<forall>i. Suc k < i \<and> i < j \<longrightarrow> go i"
        "est j = 0" "bisection_loop f L w E I delta eps Nmax ?s' = Inl ZeroDivisionError"
      | (B) j s'' where "Suc k < j" "int j \<le> Nmax" "\<forall>i. Suc k < i \<and> i < j \<longrightarrow> go i"
        "est j \<noteq> 0" "relative_error (est j) (est (j - 1)) < eps"
        "bisection_loop f L w E I delta eps Nmax ?s' = Inr s''"
        "var_n s'' = int j" "(var_a s'', var_b s'') = Iv j" "var_stdout s'' = var_stdout ?s'"
      | (C) s'' where "\<forall>i. Suc k < i \<and> int i \<le> Nmax \<longrightarrow> go i"
        "bisection_loop f L w E I delta eps Nmax ?s' = Inr s''"
        "var_n s'' = int (max (Suc k) (nat Nmax)) + 1"
        "(var_a s'', var_b s'') = Iv (max (Suc k) (nat Nmax))"
        "var_stdout s'' = var_stdout ?s' @ [''Maximum iteration number reached!'']"
      by blast
    then show ?thesis
    proof cases
      case A
      have "k < j" using A(1) by simp
      moreover have "\<forall>i. k < i \<and> i < j \<longrightarrow> go i" using A(3) by (rule ext)
      ultimately show ?thesis using A(2,4,5) unfolding step [symmetric] by blast
    next
      case B
      have "k < j" using B(1) by simp
      moreover have "\<forall>i. k < i \<and> i < j \<longrightarrow> go i" using B(3) by (rule ext)
      moreover have "var_stdout s'' = var_stdout s" using B(9) by simp
      ultimately show ?thesis using B(2,4,5,6,7,8) unfolding step [symmetric] by blast
    next
      case C
      have "\<forall>i. k < i \<and> int i \<le> Nmax \<longrightarrow> go i" using C(1) by (rule ext)
      moreover have "var_stdout s'' = var_stdout s @ [''Maximum iteration number reached!'']"
        using C(5) by simp
      ultimately show ?thesis using C(2,3,4) unfolding step [symmetric] mx by blast
    qed
  qed
qed

lemma bisection_iterations_outcome:
  fixes f :: fn and L w E I delta eps a b :: real and Nmax :: int
  defines "est \<equiv> \<lambda>k. estimate_after f L w E I delta k a b"
  defines "go \<equiv> \<lambda>i. est i \<noteq> 0 \<and> \<not> relative_error (est i) (est (i - 1)) < eps"
  defines "run \<equiv> bisection_iterations f L w E I delta a b eps Nmax"
  shows "(\<exists>j. 0 < j \<and> int j \<le> Nmax \<and> (\<forall>i. 0 < i \<and> i < j \<longrightarrow> go i) \<and> est j = 0
            \<and> run = Inl ZeroDivisionError)
       \<or> (\<exists>j. 0 < j \<and> int j \<le> Nmax \<and> (\<forall>i. 0 < i \<and> i < j \<longrightarrow> go i) \<and> est j \<noteq> 0
            \<and> relative_error (est j) (est (j - 1)) < eps
            \<and> run = Inr ((est j, int j), []))
       \<or> ((\<forall>i. 0 < i \<and> int i \<le> Nmax \<longrightarrow> go i)
            \<and> run = Inr ((est (nat Nmax), int (nat Nmax) + 1),
                          [''Maximum iteration number reached!'']))"
proof -
  let ?s = "\<lparr>var_a = a, var_b = b, var_xr_old = (a + b) / 2, var_eps_r = 0,
             var_n = 0, var_stdout = []\<rparr>"
  have est_of: "(var_a s' + var_b s') / 2 = est j"
    if h: "(var_a s', var_b s') = interval_after f L w E I delta j a b" for s' j
    unfolding est_def estimate_after_def h [symmetric] by simp
  have "var_n ?s = int 0" "(var_a ?s, var_b ?s) = interval_after f L w E I delta 0 a b"
    "var_xr_old ?s = estimate_after f L w E I delta 0 a b"
    by (simp_all add: estimate_after_def)
  from bisection_loop_outcome [OF this, where eps = eps and Nmax = Nmax]
  consider (Z) j where "0 < j" "int j \<le> Nmax" "\<forall>i. 0 < i \<and> i < j \<longrightarrow> go i" "est j = 0"
      "bisection_loop f L w E I delta eps Nmax ?s = Inl ZeroDivisionError"
    | (S) j s' where "0 < j" "int j \<le> Nmax" "\<forall>i. 0 < i \<and> i < j \<longrightarrow> go i" "est j \<noteq> 0"
      "relative_error (est j) (est (j - 1)) < eps"
      "bisection_loop f L w E I delta eps Nmax ?s = Inr s'"
      "var_n s' = int j" "(var_a s', var_b s') = interval_after f L w E I delta j a b"
      "var_stdout s' = var_stdout ?s"
    | (C) s' where "\<forall>i. 0 < i \<and> int i \<le> Nmax \<longrightarrow> go i"
      "bisection_loop f L w E I delta eps Nmax ?s = Inr s'"
      "var_n s' = int (max 0 (nat Nmax)) + 1"
      "(var_a s', var_b s') = interval_after f L w E I delta (max 0 (nat Nmax)) a b"
      "var_stdout s' = var_stdout ?s @ [''Maximum iteration number reached!'']"
    unfolding go_def est_def by blast
  then show ?thesis
  proof cases
    case Z
    have "run = Inl ZeroDivisionError"
      unfolding run_def bisection_iterations_def using Z(5) by simp
    then show ?thesis using Z(1-4) by blast
  next
    case S
    have "run = Inr ((est j, int j), [])"
      unfolding run_def bisection_iterations_def using S(6,7,9) est_of [OF S(8)] by simp
    then show ?thesis using S(1-5) by blast
  next
    case C
    have "run = Inr ((est (nat Nmax), int (nat Nmax) + 1),
        [''Maximum iteration number reached!''])"
      unfolding run_def bisection_iterations_def using C(2,3,5) est_of [OF C(4)] by simp
    then show ?thesis using C(1) by blast
  qed
qed

text \<open>
  C7. With a cap of at least one: if the first iteration's midpoint is nonzero and \<open>eps\<close> is
  larger than the first iteration's relative error (new midpoint against the midpoint of the
  input interval), the function returns after exactly one iteration: the first new midpoint,
  the count \<open>1\<close>, nothing printed.
\<close>

theorem first_iteration_convergence:
  assumes "1 \<le> Nmax"
      and "bisect f a b L w E I delta = (a1, b1)"
      and "(a1 + b1) / 2 \<noteq> 0"
      and "relative_error ((a1 + b1) / 2) ((a + b) / 2) < eps"
  shows "bisection_iterations f L w E I delta a b eps Nmax = Inr (((a1 + b1) / 2, 1), [])"
proof -
  let ?s = "\<lparr>var_a = a, var_b = b, var_xr_old = (a + b) / 2, var_eps_r = 0,
             var_n = 0, var_stdout = []\<rparr>"
  have under: "var_n ?s + 1 \<le> Nmax" using assms(1) by simp
  have bs: "bisect f (var_a ?s) (var_b ?s) L w E I delta = (a1, b1)"
    using assms(2) by simp
  have "loop_body f L w E I delta eps Nmax ?s =
      Inr (Break (?s\<lparr>var_n := var_n ?s + 1, var_a := a1, var_b := b1,
                      var_eps_r := relative_error ((a1 + b1) / 2) (var_xr_old ?s)\<rparr>))"
    using assms(3,4) by (simp add: loop_body_run [OF under bs])
  then have "bisection_loop f L w E I delta eps Nmax ?s =
      Inr (?s\<lparr>var_n := var_n ?s + 1, var_a := a1, var_b := b1,
              var_eps_r := relative_error ((a1 + b1) / 2) (var_xr_old ?s)\<rparr>)"
    by (subst bisection_loop.simps) simp
  then show ?thesis by (simp add: bisection_iterations_def)
qed

theorem first_iteration_convergence_witness:
  "(1::int) \<le> 100 \<and> bisect line3 0 4 1 1 1 1 0 = (2, 4) \<and> ((2::real) + 4) / 2 \<noteq> 0
   \<and> relative_error ((2 + 4) / 2) ((0 + 4) / 2) < 50
   \<and> bisection_iterations line3 1 1 1 1 0 0 4 50 100 = Inr ((3, 1), [])"
proof -
  have n: "(1::int) \<le> 100" by simp
  have b: "bisect line3 0 4 1 1 1 1 0 = (2, 4)" by (simp add: bisect_def sgn_py_def)
  have z: "((2::real) + 4) / 2 \<noteq> 0" by simp
  have r: "relative_error ((2 + 4) / 2) ((0 + 4) / 2) < 50" by (simp add: relative_error_def)
  have "bisection_iterations line3 1 1 1 1 0 0 4 50 100 = Inr ((3, 1), [])"
    using first_iteration_convergence [OF n b z r] by simp
  then show ?thesis using n b z r by blast
qed

text \<open>
  C3. If in every iteration up to the cap the relative error is computed (the midpoint is
  not zero) and is not below \<open>eps\<close>, the function still returns: it prints the one line
  \<^verbatim>\<open>Maximum iteration number reached!\<close>, raises nothing, and returns the midpoint of the
  interval it has reached, as an ordinary pair of the same type as a converged result.
  The count it returns then is one above the cap.
\<close>

theorem cap_exhaustion_returns_estimate:
  assumes "\<forall>k. 0 < k \<and> int k \<le> Nmax \<longrightarrow>
             estimate_after f L w E I delta k a b \<noteq> 0
           \<and> \<not> relative_error (estimate_after f L w E I delta k a b)
                 (estimate_after f L w E I delta (k - 1) a b) < eps"
  shows "bisection_iterations f L w E I delta a b eps Nmax =
           Inr ((estimate_after f L w E I delta (nat Nmax) a b, max 0 Nmax + 1),
                [''Maximum iteration number reached!''])"
proof -
  have m: "int (nat Nmax) + 1 = max 0 Nmax + 1" by simp
  from bisection_iterations_outcome [of Nmax f L w E I delta a b eps]
  show ?thesis
  proof (elim disjE exE conjE)
    fix j assume "0 < j" "int j \<le> Nmax" "estimate_after f L w E I delta j a b = 0"
    then show ?thesis using assms by blast
  next
    fix j assume "0 < j" "int j \<le> Nmax"
      "relative_error (estimate_after f L w E I delta j a b)
         (estimate_after f L w E I delta (j - 1) a b) < eps"
    then show ?thesis using assms by blast
  next
    assume "bisection_iterations f L w E I delta a b eps Nmax =
      Inr ((estimate_after f L w E I delta (nat Nmax) a b, int (nat Nmax) + 1),
           [''Maximum iteration number reached!''])"
    then show ?thesis unfolding m .
  qed
qed

lemma line3_estimates:
  "estimate_after line3 1 1 1 1 0 0 0 4 = 2"
  "estimate_after line3 1 1 1 1 0 (Suc 0) 0 4 = 3"
  "estimate_after line3 1 1 1 1 0 (Suc (Suc 0)) 0 4 = 5 / 2"
  "estimate_after line3 1 1 1 1 0 2 0 4 = 5 / 2"
  by (simp_all add: estimate_after_def bisect_def sgn_py_def numeral_2_eq_2)

lemma upto_two: "0 < k \<and> int k \<le> 2 \<longleftrightarrow> k = Suc 0 \<or> k = Suc (Suc 0)"
  by auto

theorem cap_exhaustion_returns_estimate_witness:
  "estimate_after line3 1 1 1 1 0 0 0 4 = 2
   \<and> estimate_after line3 1 1 1 1 0 1 0 4 = 3
   \<and> \<not> relative_error 3 2 < 1 / 10000
   \<and> estimate_after line3 1 1 1 1 0 2 0 4 = 5 / 2
   \<and> \<not> relative_error (5 / 2) 3 < 1 / 10000
   \<and> bisection_iterations line3 1 1 1 1 0 0 4 (1 / 10000) 2 =
       Inr ((5 / 2, 3), [''Maximum iteration number reached!''])"
proof -
  have r: "\<not> relative_error 3 2 < 1 / 10000" "\<not> relative_error (5 / 2) 3 < 1 / 10000"
    by (simp_all add: relative_error_def)
  have h: "\<forall>k. 0 < k \<and> int k \<le> 2 \<longrightarrow>
        estimate_after line3 1 1 1 1 0 k 0 4 \<noteq> 0
      \<and> \<not> relative_error (estimate_after line3 1 1 1 1 0 k 0 4)
            (estimate_after line3 1 1 1 1 0 (k - 1) 0 4) < 1 / 10000"
    unfolding upto_two using r by (auto simp: line3_estimates)
  have "bisection_iterations line3 1 1 1 1 0 0 4 (1 / 10000) 2 =
       Inr ((5 / 2, 3), [''Maximum iteration number reached!''])"
    using cap_exhaustion_returns_estimate [OF h] by (simp add: line3_estimates)
  then show ?thesis using r by (simp add: line3_estimates)
qed

text \<open>
  C4. The returned pair is claimed to be the midpoint of the final interval and the number
  of bisection iterations performed, also when the cap is exhausted. The run below hits the
  cap \<open>1\<close>: the returned estimate \<open>3\<close> is the midpoint of \<open>(2, 4)\<close>, the interval after one
  call of \<open>bisect\<close>, and the returned count is \<open>2\<close>.
\<close>

theorem cap_exhaustion_count_is_one_more:
  "bisection_iterations line3 1 1 1 1 0 0 4 (1 / 10000) 1
     = Inr ((3, 2), [''Maximum iteration number reached!''])
   \<and> interval_after line3 1 1 1 1 0 1 0 4 = (2, 4)
   \<and> estimate_after line3 1 1 1 1 0 1 0 4 = 3"
  by (simp add: bisection_iterations_def bisection_loop.simps loop_body_def bisect_def
      sgn_py_def Let_def estimate_after_def)



section \<open>Rounding to the nearest double\<close>

text \<open>
  What the proofs need of \<open>nearest\<close>: it fixes the numbers \<open>n * 2\<^sup>k\<close> with
  \<open>|n| < 2\<^sup>5\<^sup>3\<close> and \<open>k \<ge> -1074\<close>, it is idempotent, it commutes with doubling a
  number it fixes, and it never crosses a number it fixes.
\<close>

lemma rhe_of_int [simp]: "round_half_even (of_int n) = n"
  by (simp add: round_half_even_def)

lemma rhe_ge_floor: "\<lfloor>q\<rfloor> \<le> round_half_even q"
  by (simp add: round_half_even_def Let_def)

lemma rhe_le_ceiling: "round_half_even q \<le> \<lceil>q\<rceil>"
proof (cases "q = of_int \<lfloor>q\<rfloor>")
  case True
  then have "round_half_even q = \<lfloor>q\<rfloor>" by (metis rhe_of_int)
  then show ?thesis by (simp add: floor_le_ceiling)
next
  case False
  then have "\<lceil>q\<rceil> = \<lfloor>q\<rfloor> + 1" by (simp add: ceiling_altdef)
  then show ?thesis by (simp add: round_half_even_def Let_def)
qed

lemma rhe_le_int: "q \<le> of_int k \<Longrightarrow> round_half_even q \<le> k"
  using rhe_le_ceiling [of q] by (meson ceiling_le order_trans)

lemma rhe_ge_int: "of_int k \<le> q \<Longrightarrow> k \<le> round_half_even q"
  using rhe_ge_floor [of q] by (meson le_floor_iff order_trans)

lemma rhe_minus: "round_half_even (- q) = - round_half_even q"
proof (cases "q = of_int \<lfloor>q\<rfloor>")
  case True
  then obtain n where "q = of_int n" by metis
  then show ?thesis by (metis of_int_minus rhe_of_int)
next
  case False
  then have f: "\<lfloor>- q\<rfloor> = - \<lfloor>q\<rfloor> - 1"
    by (metis ceiling_altdef ceiling_def add.commute minus_add_distrib
        uminus_add_conv_diff minus_minus)
  have "q - of_int \<lfloor>q\<rfloor> < 1" "0 \<le> q - of_int \<lfloor>q\<rfloor>" by linarith+
  then show ?thesis
    unfolding round_half_even_def Let_def f by (auto simp: algebra_simps)
qed

lemma two_powr_int: "(2::real) powr of_int k = 2 powi k"
  by (simp add: powr_real_of_int')

lemma floor_log2_bounds:
  assumes "x \<noteq> 0"
  shows "2 powi \<lfloor>log 2 \<bar>x\<bar>\<rfloor> \<le> \<bar>x\<bar>" and "\<bar>x\<bar> < 2 powi (\<lfloor>log 2 \<bar>x\<bar>\<rfloor> + 1)"
proof -
  have "0 < \<bar>x\<bar>" using assms by simp
  from floor_log_eq_powr_iff [OF this, of 2 "\<lfloor>log 2 \<bar>x\<bar>\<rfloor>"]
  have "2 powr of_int \<lfloor>log 2 \<bar>x\<bar>\<rfloor> \<le> \<bar>x\<bar> \<and> \<bar>x\<bar> < 2 powr (of_int \<lfloor>log 2 \<bar>x\<bar>\<rfloor> + 1)"
    by simp
  then show "2 powi \<lfloor>log 2 \<bar>x\<bar>\<rfloor> \<le> \<bar>x\<bar>" and "\<bar>x\<bar> < 2 powi (\<lfloor>log 2 \<bar>x\<bar>\<rfloor> + 1)"
    using two_powr_int [of "\<lfloor>log 2 \<bar>x\<bar>\<rfloor>"] two_powr_int [of "\<lfloor>log 2 \<bar>x\<bar>\<rfloor> + 1"]
    by simp_all
qed

lemma floor_log2_eqI:
  assumes "2 powi k \<le> \<bar>x\<bar>" and "\<bar>x\<bar> < 2 powi (k + 1)"
  shows "\<lfloor>log 2 \<bar>x\<bar>\<rfloor> = k"
proof -
  have "0 < (2::real) powi k" by simp
  then have "0 < \<bar>x\<bar>" using assms(1) by linarith
  from floor_log_eq_powr_iff [OF this, of 2 k] assms
  show ?thesis using two_powr_int [of k] two_powr_int [of "k + 1"] by simp
qed

lemma exponent_nz: "x \<noteq> 0 \<Longrightarrow> exponent x = max \<lfloor>log 2 \<bar>x\<bar>\<rfloor> (- 1022)"
  by (simp add: exponent_def)

lemma exponent_ge: "- 1022 \<le> exponent x"
  by (simp add: exponent_def)

lemma exponent_minus [simp]: "exponent (- x) = exponent x"
  by (simp add: exponent_def)

lemma exponent_upper:
  assumes "x \<noteq> 0"
  shows "\<bar>x\<bar> < 2 powi (exponent x + 1)"
proof -
  have "\<lfloor>log 2 \<bar>x\<bar>\<rfloor> + 1 \<le> exponent x + 1" by (simp add: exponent_nz [OF assms])
  then have "(2::real) powi (\<lfloor>log 2 \<bar>x\<bar>\<rfloor> + 1) \<le> 2 powi (exponent x + 1)"
    by (intro power_int_increasing) simp_all
  with floor_log2_bounds(2) [OF assms] show ?thesis by linarith
qed

lemma exponent_lower:
  assumes "x \<noteq> 0" and "exponent x \<noteq> - 1022"
  shows "2 powi exponent x \<le> \<bar>x\<bar>"
proof -
  have "exponent x = \<lfloor>log 2 \<bar>x\<bar>\<rfloor>"
    using assms(2) by (simp add: exponent_nz [OF assms(1)] max_def split: if_splits)
  with floor_log2_bounds(1) [OF assms(1)] show ?thesis by simp
qed


lemma ulp_pos [simp]: "0 < ulp x"
  by (simp add: ulp_def)

lemma ulp_neq0 [simp]: "ulp x \<noteq> 0"
  by (simp add: ulp_def)

lemma abs_ulp [simp]: "\<bar>ulp x\<bar> = ulp x"
  using ulp_pos [of x] by linarith

lemma ulp_minus [simp]: "ulp (- x) = ulp x"
  by (simp add: ulp_def)

lemma nearest_minus: "nearest (- x) = - nearest x"
  by (simp add: nearest_def rhe_minus)

lemma two_powi_split: "(2::real) powi (a + b) = 2 powi a * 2 powi b"
  by (simp add: power_int_add)

lemma two_powi_int: "0 \<le> j \<Longrightarrow> (2::real) powi j = of_int (2 ^ nat j)"
  by (simp add: power_int_nonneg_exp)

lemma two_powi_less_iff: "(2::real) powi a < 2 powi b \<longleftrightarrow> a < b"
proof
  assume l: "(2::real) powi a < 2 powi b"
  show "a < b"
  proof (rule ccontr)
    assume "\<not> a < b"
    then have "(2::real) powi b \<le> 2 powi a" by (intro power_int_increasing) simp_all
    with l show False by simp
  qed
next
  assume "a < b"
  then show "(2::real) powi a < 2 powi b" by (intro power_int_strict_increasing) simp_all
qed

lemma two_powi_le_iff: "(2::real) powi a \<le> 2 powi b \<longleftrightarrow> a \<le> b"
  using two_powi_less_iff [of b a] by (simp add: not_less [symmetric])

lemma exponent_mono:
  assumes "\<bar>x\<bar> \<le> \<bar>y\<bar>" and "x \<noteq> 0"
  shows "exponent x \<le> exponent y"
proof -
  have "log 2 \<bar>x\<bar> \<le> log 2 \<bar>y\<bar>" using assms by simp
  then have "\<lfloor>log 2 \<bar>x\<bar>\<rfloor> \<le> \<lfloor>log 2 \<bar>y\<bar>\<rfloor>" by (rule floor_mono)
  moreover have "y \<noteq> 0" using assms by auto
  ultimately show ?thesis by (simp add: exponent_nz assms(2))
qed

lemma nearest_grid:
  assumes k: "- 1074 \<le> k" and n: "\<bar>n\<bar> < 2 ^ 53"
  shows "nearest (of_int n * 2 powi k) = of_int n * 2 powi k"
proof (cases "n = 0")
  case True
  then show ?thesis by (simp add: nearest_def)
next
  case False
  define y :: real where "y = of_int n * 2 powi k"
  have y0: "y \<noteq> 0" using False by (simp add: y_def)
  have "\<bar>y\<bar> = of_int \<bar>n\<bar> * 2 powi k" by (simp add: y_def abs_mult)
  also have "\<dots> < 2 ^ 53 * 2 powi k"
  proof -
    have "(of_int \<bar>n\<bar> :: real) < of_int (2 ^ 53)" using n by (simp only: of_int_less_iff)
    then show ?thesis by simp
  qed
  also have "\<dots> = 2 powi (k + 53)" by (simp add: two_powi_split)
  finally have ub: "\<bar>y\<bar> < 2 powi (k + 53)" .
  have le: "exponent y \<le> k + 52"
  proof (rule ccontr)
    assume a: "\<not> exponent y \<le> k + 52"
    then have "exponent y \<noteq> - 1022" using k by simp
    from exponent_lower [OF y0 this] ub have "(2::real) powi exponent y < 2 powi (k + 53)"
      by linarith
    then have "exponent y < k + 53" by (simp only: two_powi_less_iff)
    with a show False by simp
  qed
  define j where "j = k + 52 - exponent y"
  have j: "0 \<le> j" using le by (simp add: j_def)
  have kk: "2 powi k = (2::real) powi j * ulp y"
    unfolding ulp_def two_powi_split [symmetric] by (simp add: j_def)
  have "of_int n * 2 powi k = of_int n * 2 powi j * ulp y"
    by (simp only: kk mult.assoc)
  from trans [OF y_def this] have "y = of_int n * 2 powi j * ulp y" .
  then have "y / ulp y = (of_int n * 2 powi j * ulp y) / ulp y"
    by (rule arg_cong [where f = "\<lambda>t. t / ulp y"])
  also have "\<dots> = of_int n * 2 powi j"
    using ulp_pos [of y] by simp
  finally have "y / ulp y = of_int n * 2 powi j" .
  then have q: "y / ulp y = of_int (n * 2 ^ nat j)"
    by (simp add: two_powi_int [OF j])
  have "nearest y = of_int (round_half_even (y / ulp y)) * ulp y"
    using y0 by (simp add: nearest_def)
  also have "\<dots> = of_int (n * 2 ^ nat j) * ulp y" by (simp only: q rhe_of_int)
  also have "\<dots> = (y / ulp y) * ulp y" by (simp only: q)
  also have "\<dots> = y" by simp
  finally show ?thesis by (simp add: y_def)
qed

lemma two_powi_exponent_Suc: "(2::real) powi (exponent x + 1) = 2 ^ 53 * ulp x"
proof -
  have e: "exponent x + 1 = 53 + (exponent x - 52)" by simp
  have "(2::real) powi (exponent x + 1) = 2 powi 53 * 2 powi (exponent x - 52)"
    by (subst e) (rule two_powi_split)
  then show ?thesis by (simp add: ulp_def)
qed

lemma two_powi_exponent: "(2::real) powi exponent x = 2 ^ 52 * ulp x"
proof -
  have e: "exponent x = 52 + (exponent x - 52)" by simp
  have "(2::real) powi exponent x = 2 powi 52 * 2 powi (exponent x - 52)"
    by (subst e) (rule two_powi_split)
  then show ?thesis by (simp add: ulp_def)
qed

lemma quotient_bound:
  assumes "x \<noteq> 0"
  shows "\<bar>x / ulp x\<bar> < 2 ^ 53"
proof -
  have "\<bar>x\<bar> < 2 ^ 53 * ulp x"
    using exponent_upper [OF assms] by (simp only: two_powi_exponent_Suc)
  then have "\<bar>x\<bar> / ulp x < 2 ^ 53"
    using ulp_pos [of x] by (simp add: pos_divide_less_eq)
  then show ?thesis by (simp add: abs_divide)
qed

lemma nearest_repr:
  assumes "nearest d = d" and "d \<noteq> 0"
  obtains m where "d = of_int m * ulp d" and "\<bar>m\<bar> < 2 ^ 53"
proof -
  define m where "m = round_half_even (d / ulp d)"
  have d: "d = of_int m * ulp d"
    using assms by (simp add: nearest_def m_def)
  then have "d / ulp d = of_int m"
    by (metis nonzero_mult_div_cancel_right ulp_neq0)
  with quotient_bound [OF assms(2)] have "\<bar>(of_int m :: real)\<bar> < 2 ^ 53" by simp
  then have "(of_int \<bar>m\<bar> :: real) < of_int (2 ^ 53)" by simp
  then have "\<bar>m\<bar> < 2 ^ 53" by (simp only: of_int_less_iff)
  with d show ?thesis by (rule that)
qed

lemma round_quotient_bound:
  assumes "x \<noteq> 0"
  shows "\<bar>round_half_even (x / ulp x)\<bar> \<le> 2 ^ 53"
proof -
  define q where "q = x / ulp x"
  have "\<bar>q\<bar> < 2 ^ 53" using quotient_bound [OF assms] by (simp only: q_def)
  then have "q \<le> of_int (2 ^ 53)" "of_int (- (2 ^ 53)) \<le> q" by simp_all
  from rhe_le_int [OF this(1)] rhe_ge_int [OF this(2)] show ?thesis
    unfolding q_def by simp
qed

lemma two_powi_Suc: "(2::real) powi (k + 1) = 2 * 2 powi k"
  by (simp add: two_powi_split)

lemma nearest_idem: "nearest (nearest x) = nearest x"
proof (cases "x = 0")
  case True
  then show ?thesis by (simp add: nearest_def)
next
  case False
  define m where "m = round_half_even (x / ulp x)"
  define k where "k = exponent x - 52"
  have k: "- 1074 \<le> k" using exponent_ge [of x] by (simp add: k_def)
  have n: "nearest x = of_int m * 2 powi k"
    using False by (simp add: nearest_def m_def k_def ulp_def)
  have m: "\<bar>m\<bar> \<le> 2 ^ 53" using round_quotient_bound [OF False] by (simp add: m_def)
  show ?thesis
  proof (cases "\<bar>m\<bar> < 2 ^ 53")
    case True
    from nearest_grid [OF k True] show ?thesis by (simp only: n)
  next
    case False
    with m have "m = 2 ^ 53 \<or> m = - (2 ^ 53)" by linarith
    then obtain m' :: int where m': "m = 2 * m'" "\<bar>m'\<bar> < 2 ^ 53" by auto
    have "of_int m * 2 powi k = of_int m' * (2::real) powi (k + 1)"
      by (simp add: m'(1) two_powi_Suc)
    moreover have "- 1074 \<le> k + 1" using k by simp
    from nearest_grid [OF this m'(2)]
    have "nearest (of_int m' * 2 powi (k + 1)) = of_int m' * 2 powi (k + 1)" .
    ultimately show ?thesis by (simp only: n)
  qed
qed

lemma nearest_twice:
  assumes "nearest d = d"
  shows "nearest (2 * d) = 2 * d"
proof (cases "d = 0")
  case True
  then show ?thesis by (simp add: nearest_def)
next
  case False
  from nearest_repr [OF assms False] obtain m
    where m: "d = of_int m * ulp d" "\<bar>m\<bar> < 2 ^ 53" .
  define k where "k = exponent d - 52"
  have u: "ulp d = 2 powi k" by (simp add: ulp_def k_def)
  have "2 * d = 2 * (of_int m * 2 powi k)" using m(1) by (simp only: u)
  also have "\<dots> = of_int m * (2 * 2 powi k)" by simp
  also have "\<dots> = of_int m * 2 powi (k + 1)" by (simp only: two_powi_Suc)
  finally have e: "2 * d = of_int m * 2 powi (k + 1)" .
  have "- 1074 \<le> k + 1" using exponent_ge [of d] by (simp add: k_def)
  from nearest_grid [OF this m(2)] show ?thesis by (simp only: e)
qed

lemma aligned:
  assumes "nearest d = d" and "d \<noteq> 0" and "exponent r \<le> exponent d"
  obtains t :: int where "d = of_int t * ulp r"
proof -
  from nearest_repr [OF assms(1,2)] obtain m where m: "d = of_int m * ulp d" by blast
  define j where "j = exponent d - exponent r"
  have j: "0 \<le> j" using assms(3) by (simp add: j_def)
  have e: "exponent d - 52 = j + (exponent r - 52)" by (simp add: j_def)
  have "ulp d = 2 powi j * ulp r"
    unfolding ulp_def by (subst e) (rule two_powi_split)
  then have "ulp d = of_int (2 ^ nat j) * ulp r" by (simp only: two_powi_int [OF j])
  then have "of_int m * ulp d = of_int (m * 2 ^ nat j) * ulp r" by simp
  with m have "d = of_int (m * 2 ^ nat j) * ulp r" by (rule trans)
  then show ?thesis by (rule that)
qed

lemma nearest_eq: "x \<noteq> 0 \<Longrightarrow> nearest x = of_int (round_half_even (x / ulp x)) * ulp x"
  by (simp add: nearest_def)

lemma nearest_le_aligned:
  assumes "x \<noteq> 0" and "x \<le> of_int t * ulp x"
  shows "nearest x \<le> of_int t * ulp x"
proof -
  have "x / ulp x \<le> of_int t"
    using assms(2) ulp_pos [of x] by (simp add: pos_divide_le_eq)
  from rhe_le_int [OF this]
  have "(of_int (round_half_even (x / ulp x)) :: real) \<le> of_int t" by (simp only: of_int_le_iff)
  then have "of_int (round_half_even (x / ulp x)) * ulp x \<le> of_int t * ulp x"
    using ulp_pos [of x] by (simp only: mult_le_cancel_right_pos)
  then show ?thesis by (simp only: nearest_eq [OF assms(1)])
qed

lemma nearest_le:
  assumes d: "nearest d = d" and le: "x \<le> d"
  shows "nearest x \<le> d"
proof (cases "x = 0")
  case True
  then show ?thesis using le by (simp add: nearest_def)
next
  case x0: False
  consider (pos) "0 < x" | (neg0) "x < 0" "0 \<le> d" | (neg) "x < 0" "d < 0"
    using x0 by linarith
  then show ?thesis
  proof cases
    case pos
    then have "d \<noteq> 0" "\<bar>x\<bar> \<le> \<bar>d\<bar>" using le by simp_all
    from aligned [OF d this(1) exponent_mono [OF this(2) x0]]
    obtain t :: int where t: "d = of_int t * ulp x" .
    from nearest_le_aligned [OF x0, of t] le show ?thesis by (simp only: t [symmetric])
  next
    case neg0
    have "x \<le> of_int 0 * ulp x" using neg0(1) by simp
    from nearest_le_aligned [OF x0 this] neg0(2) show ?thesis by simp
  next
    case neg
    then have d0: "d \<noteq> 0" and ab: "\<bar>d\<bar> \<le> \<bar>x\<bar>" using le by simp_all
    have ed: "exponent d \<le> exponent x" by (rule exponent_mono [OF ab d0])
    show ?thesis
    proof (cases "exponent d = exponent x")
      case True
      then have "exponent x \<le> exponent d" by simp
      from aligned [OF d d0 this] obtain t :: int where t: "d = of_int t * ulp x" .
      from nearest_le_aligned [OF x0, of t] le show ?thesis by (simp only: t [symmetric])
    next
      case False
      with ed have lt: "exponent d < exponent x" by simp
      then have "exponent x \<noteq> - 1022" using exponent_ge [of d] by linarith
      from exponent_lower [OF x0 this] have "2 ^ 52 * ulp x \<le> \<bar>x\<bar>"
        by (simp only: two_powi_exponent)
      then have "x \<le> of_int (- (2 ^ 52)) * ulp x" using neg(1) by simp
      from nearest_le_aligned [OF x0 this]
      have n: "nearest x \<le> - (2 powi exponent x)" by (simp add: two_powi_exponent)
      have "exponent d + 1 \<le> exponent x" using lt by simp
      then have "(2::real) powi (exponent d + 1) \<le> 2 powi exponent x"
        by (simp only: two_powi_le_iff)
      with exponent_upper [OF d0] have "\<bar>d\<bar> < 2 powi exponent x" by linarith
      with n show ?thesis by linarith
    qed
  qed
qed

lemma nearest_ge:
  assumes d: "nearest d = d" and le: "d \<le> x"
  shows "d \<le> nearest x"
proof -
  have "nearest (- d) = - d" using d by (simp add: nearest_minus)
  moreover have "- x \<le> - d" using le by simp
  ultimately have "nearest (- x) \<le> - d" by (rule nearest_le)
  then show ?thesis by (simp add: nearest_minus)
qed

text \<open>The exponent computed from bit lengths, which makes \<open>round_double\<close> executable.\<close>

lemma floor_log2_ge1:
  assumes "1 \<le> \<bar>x\<bar>"
  shows "\<lfloor>log 2 \<bar>x\<bar>\<rfloor> = bitlen \<lfloor>\<bar>x\<bar>\<rfloor> - 1"
proof -
  define n where "n = \<lfloor>\<bar>x\<bar>\<rfloor>"
  define k where "k = bitlen n - 1"
  have n: "0 < n" using assms by (simp add: n_def)
  from bitlen_bounds [OF n] have b: "2 ^ nat k \<le> n" "n < 2 ^ nat (bitlen n)"
    by (simp_all add: k_def)
  have k: "0 \<le> k" using n by (simp add: k_def bitlen_alt_def)
  have kk: "nat (bitlen n) = Suc (nat k)" using k by (simp add: k_def)
  have "(of_int (2 ^ nat k) :: real) \<le> of_int n" using b(1) by (simp only: of_int_le_iff)
  also have "\<dots> \<le> \<bar>x\<bar>" by (simp add: n_def)
  finally have lo: "2 powi k \<le> \<bar>x\<bar>" by (simp add: power_int_nonneg_exp [OF k])
  have "n + 1 \<le> 2 ^ nat (bitlen n)" using b(2) by simp
  then have "(of_int (n + 1) :: real) \<le> of_int (2 ^ nat (bitlen n))" by (simp only: of_int_le_iff)
  moreover have "\<bar>x\<bar> < of_int (n + 1)" by (simp add: n_def)
  ultimately have "\<bar>x\<bar> < 2 ^ Suc (nat k)" by (simp add: kk)
  then have hi: "\<bar>x\<bar> < 2 powi (k + 1)"
    using k by (simp add: power_int_nonneg_exp nat_add_distrib)
  from floor_log2_eqI [OF lo hi] show ?thesis by (simp add: k_def n_def)
qed

lemma floor_log2_lt1:
  assumes "x \<noteq> 0" and "\<bar>x\<bar> < 1"
  shows "\<lfloor>log 2 \<bar>x\<bar>\<rfloor> = - bitlen (\<lceil>1 / \<bar>x\<bar>\<rceil> - 1)"
proof -
  define y where "y = 1 / \<bar>x\<bar>"
  define m where "m = \<lceil>y\<rceil> - 1"
  define j where "j = bitlen m"
  have y: "1 < y" using assms by (simp add: y_def)
  then have m: "0 < m" by (simp add: m_def)
  from bitlen_bounds [OF m] have b: "2 ^ nat (j - 1) \<le> m" "m < 2 ^ nat j"
    by (simp_all add: j_def)
  have j: "1 \<le> j" using m by (simp add: j_def bitlen_alt_def)
  have "(of_int m :: real) < y" by (simp add: m_def) linarith
  moreover have "(of_int (2 ^ nat (j - 1)) :: real) \<le> of_int m"
    using b(1) by (simp only: of_int_le_iff)
  then have "(2::real) ^ nat (j - 1) \<le> of_int m" by simp
  ultimately have lo: "2 ^ nat (j - 1) < y" by linarith
  have "m + 1 \<le> 2 ^ nat j" using b(2) by simp
  then have "(of_int (m + 1) :: real) \<le> of_int (2 ^ nat j)" by (simp only: of_int_le_iff)
  moreover have "y \<le> of_int (m + 1)" by (simp add: m_def)
  ultimately have hi: "y \<le> 2 ^ nat j" by simp
  have x: "\<bar>x\<bar> = 1 / y" by (simp add: y_def)
  have p1: "(2::real) powi (- j) = 1 / 2 ^ nat j"
    using j by (simp add: power_int_def field_simps)
  have p2: "(2::real) powi (- j + 1) = 1 / 2 ^ nat (j - 1)"
    using j by (simp add: power_int_def field_simps)
  have "2 powi (- j) \<le> \<bar>x\<bar>"
    unfolding p1 x using hi y by (simp add: frac_le)
  moreover have "\<bar>x\<bar> < 2 powi (- j + 1)"
    unfolding p2 x using lo y by (simp add: frac_less2)
  ultimately show ?thesis
    using floor_log2_eqI by (simp add: j_def m_def y_def)
qed

lemma exponent_code [code]:
  "exponent x =
     (if x = 0 then - 1022
      else max (if 1 \<le> \<bar>x\<bar> then bitlen \<lfloor>\<bar>x\<bar>\<rfloor> - 1 else - bitlen (\<lceil>1 / \<bar>x\<bar>\<rceil> - 1)) (- 1022))"
  by (simp add: exponent_def floor_log2_ge1 floor_log2_lt1)


lemma round_double_exact:
  assumes "- 1074 \<le> k" and "\<bar>n\<bar> < 2 ^ 53" and "\<bar>of_int n * 2 powi k\<bar> < (2::real) ^ 1024"
  shows "round_double (of_int n * 2 powi k) = Finite (of_int n * 2 powi k)"
  using assms(3) unfolding round_double_def nearest_grid [OF assms(1,2)] Let_def
  by (simp add: abs_less_iff)

lemma is_double_iff: "is_double x \<longleftrightarrow> nearest x = x \<and> \<bar>x\<bar> < 2 ^ 1024"
  by (auto simp: is_double_def round_double_def Let_def abs_less_iff)

section \<open>The midpoint of two doubles\<close>

lemma is_double_nearest: "is_double x \<Longrightarrow> nearest x = x"
  by (simp add: is_double_iff)

lemma round_double_Finite_iff:
  "round_double x = Finite y \<longleftrightarrow> y = nearest x \<and> \<bar>nearest x\<bar> < 2 ^ 1024"
  by (auto simp: round_double_def Let_def abs_less_iff)

lemma midpoint64_Finite:
  assumes "float_div (float_add (Finite x) (Finite y)) (Finite 2) = Finite p"
  shows "\<bar>nearest (x + y)\<bar> < 2 ^ 1024" and "p = nearest (nearest (x + y) / 2)"
    and "\<bar>p\<bar> < 2 ^ 1024"
proof -
  obtain s where s: "round_double (x + y) = Finite s"
    using assms by (cases "round_double (x + y)") simp_all
  then have s': "s = nearest (x + y)" "\<bar>nearest (x + y)\<bar> < 2 ^ 1024"
    by (simp_all add: round_double_Finite_iff)
  from assms s have "round_double (s / 2) = Finite p" by simp
  then have "p = nearest (s / 2)" "\<bar>nearest (s / 2)\<bar> < 2 ^ 1024"
    by (simp_all add: round_double_Finite_iff)
  then show "\<bar>nearest (x + y)\<bar> < 2 ^ 1024" and "p = nearest (nearest (x + y) / 2)"
    and "\<bar>p\<bar> < 2 ^ 1024"
    using s' by simp_all
qed

lemma midpoint64_nested:
  assumes x: "is_double x" and y: "is_double y" and le: "x \<le> y"
    and p: "float_div (float_add (Finite x) (Finite y)) (Finite 2) = Finite p"
  shows "is_double p \<and> x \<le> p \<and> p \<le> y"
proof -
  note m = midpoint64_Finite [OF p]
  define s where "s = nearest (x + y)"
  have nx: "nearest x = x" and ny: "nearest y = y"
    using x y by (simp_all add: is_double_nearest)
  have "s \<le> 2 * y"
    unfolding s_def using le by (intro nearest_le nearest_twice ny) simp
  then have "s / 2 \<le> y" by simp
  from nearest_le [OF ny this] have up: "p \<le> y" by (simp add: m(2) s_def)
  have "2 * x \<le> s"
    unfolding s_def using le by (intro nearest_ge nearest_twice nx) simp
  then have "x \<le> s / 2" by simp
  from nearest_ge [OF nx this] have lo: "x \<le> p" by (simp add: m(2) s_def)
  have "nearest p = p" unfolding m(2) by (rule nearest_idem)
  with m(3) have "is_double p" by (simp add: is_double_iff)
  with lo up show ?thesis by simp
qed

lemma midpoint64_in_range:
  assumes x: "is_double x" and y: "is_double y" and le: "x \<le> y"
    and bx: "\<bar>x\<bar> < 2 ^ 1023" and "\<bar>y\<bar> < 2 ^ 1023"
  obtains p where "float_div (float_add (Finite x) (Finite y)) (Finite 2) = Finite p"
proof -
  define s where "s = nearest (x + y)"
  have nx: "nearest x = x" and ny: "nearest y = y"
    using x y by (simp_all add: is_double_nearest)
  have "s \<le> 2 * y"
    unfolding s_def using le by (intro nearest_le nearest_twice ny) simp
  moreover have "2 * x \<le> s"
    unfolding s_def using le by (intro nearest_ge nearest_twice nx) simp
  ultimately have sb: "\<bar>s\<bar> < 2 ^ 1024" and h: "s / 2 \<le> y" "x \<le> s / 2"
    using assms(4,5) by (simp_all add: abs_less_iff)
  have "nearest (s / 2) \<le> y" "x \<le> nearest (s / 2)"
    using nearest_le [OF ny h(1)] nearest_ge [OF nx h(2)] by simp_all
  then have pb: "\<bar>nearest (s / 2)\<bar> < 2 ^ 1024"
    using assms(4,5) by (simp add: abs_less_iff)
  have "round_double (x + y) = Finite s"
    using sb by (simp add: round_double_Finite_iff s_def)
  moreover have "round_double (s / 2) = Finite (nearest (s / 2))"
    using pb by (simp add: round_double_Finite_iff)
  ultimately have "float_div (float_add (Finite x) (Finite y)) (Finite 2)
      = Finite (nearest (s / 2))" by simp
  then show ?thesis by (rule that)
qed

lemma bisect64_cases:
  "bisect64 f a b L w E I delta =
     (if sgn64 (f a L w E I delta)
         = sgn64 (f (float_div (float_add a b) (Finite 2)) L w E I delta)
      then (float_div (float_add a b) (Finite 2), b)
      else (a, float_div (float_add a b) (Finite 2)))"
  by (simp add: bisect64_def Let_def)

lemma loop_body64_cap:
  assumes "Nmax < var64_n s + 1"
  shows "loop_body64 f L w E I delta eps Nmax s =
     Inr (Break (s\<lparr>var64_n := var64_n s + 1,
                    var64_stdout := var64_stdout s @ [''Maximum iteration number reached!'']\<rparr>))"
  using assms by (simp add: loop_body64_def Let_def)

lemma loop_body64_interval:
  assumes "var64_n s < Nmax" and "loop_body64 f L w E I delta eps Nmax s = Inr c"
  shows "(var64_a (ctl_vars c), var64_b (ctl_vars c))
      = bisect64 f (var64_a s) (var64_b s) L w E I delta"
  using assms
  by (auto simp: loop_body64_def Let_def split: if_splits prod.splits sum.splits)

lemma bisect64_nested:
  assumes "is_double x" and "is_double y" and "x \<le> y"
    and "float_div (float_add (Finite x) (Finite y)) (Finite 2) = Finite p"
  shows "\<exists>x' y'. bisect64 f (Finite x) (Finite y) L w E I delta = (Finite x', Finite y')
          \<and> is_double x' \<and> is_double y' \<and> x \<le> x' \<and> x' \<le> y' \<and> y' \<le> y"
  unfolding bisect64_cases assms(4)
  using midpoint64_nested [OF assms] assms(1,2,3) by auto

lemma bisection_loop64_invariant:
  assumes "bisection_loop64 f L w E I delta eps Nmax s = Inr s'"
    and "P s"
    and "\<forall>s c. P s \<and> loop_body64 f L w E I delta eps Nmax s = Inr c \<longrightarrow> P (ctl_vars c)"
  shows "P s'"
  using assms
proof (induction f L w E I delta eps Nmax s rule: bisection_loop64.induct)
  case (1 f L w E I delta eps Nmax s)
  show ?case
  proof (cases "loop_body64 f L w E I delta eps Nmax s")
    case (Inl e)
    with "1.prems"(1) show ?thesis by (subst (asm) bisection_loop64.simps) simp
  next
    case (Inr c)
    with "1.prems"(2,3) have pc: "P (ctl_vars c)" by blast
    show ?thesis
    proof (cases c)
      case (Continue t)
      with Inr "1.prems"(1) have "bisection_loop64 f L w E I delta eps Nmax t = Inr s'"
        by (subst (asm) bisection_loop64.simps) simp
      from "1.IH" [OF Inr Continue this _ "1.prems"(3)] pc Continue show ?thesis by simp
    next
      case (Break t)
      with Inr "1.prems"(1) have "t = s'"
        by (subst (asm) bisection_loop64.simps) simp
      with pc Break show ?thesis by simp
    qed
  qed
qed

lemma round_double_small:
  "round_double 0 = Finite 0"
  "round_double 1 = Finite 1"
  "round_double 2 = Finite 2"
  "round_double 4 = Finite 4"
  "round_double 100 = Finite 100"
  "round_double (- 1) = Finite (- 1)"
  using round_double_exact [of 0 0] round_double_exact [of 0 1] round_double_exact [of 0 2]
    round_double_exact [of 0 4] round_double_exact [of 0 100] round_double_exact [of 0 "- 1"]
  by simp_all




section \<open>Nested intervals on doubles\<close>

lemmas run64_defs = bisection_iterations64_def bisection_loop64.simps loop_body64_def
  bisect64_def sgn64_def float_gt_def float_sub_def py_truediv_def Let_def

text \<open>
  C9. With doubles \<open>a \<le> b\<close>: a call of \<open>bisect\<close> on doubles \<open>x \<le> y\<close> whose computed midpoint
  is finite returns an interval of doubles inside \<open>[x, y]\<close>; and if \<open>a\<close> and \<open>b\<close> are of
  magnitude below \<open>2\<^sup>1\<^sup>0\<^sup>2\<^sup>3\<close>, so that no sum of two numbers of \<open>[a, b]\<close> overflows,
  every estimate the function returns is a finite double in \<open>[a, b]\<close>, whether or not the
  signs at the ends differ and whether the run converged or hit the cap. Without the bound
  the sum \<open>a + b\<close> can overflow, and then the claim fails.
\<close>

theorem nested_unless_midpoint_overflows:
  assumes "is_double a" and "is_double b" and "a \<le> b"
  shows "(\<forall>x y p. is_double x \<and> is_double y \<and> x \<le> y
            \<and> float_div (float_add (Finite x) (Finite y)) (Finite 2) = Finite p \<longrightarrow>
            (\<exists>x' y'. bisect64 f (Finite x) (Finite y) L w E I delta = (Finite x', Finite y')
               \<and> is_double x' \<and> is_double y' \<and> x \<le> x' \<and> x' \<le> y' \<and> y' \<le> y))
       \<and> (\<bar>a\<bar> < 2 ^ 1023 \<and> \<bar>b\<bar> < 2 ^ 1023 \<longrightarrow>
            (\<forall>r n out. bisection_iterations64 f L w E I delta (Finite a) (Finite b) eps Nmax
                          = Inr ((r, n), out) \<longrightarrow>
               (\<exists>x. r = Finite x \<and> a \<le> x \<and> x \<le> b)))"
proof -
  have step: "\<exists>x' y'. bisect64 f (Finite x) (Finite y) L w E I delta = (Finite x', Finite y')
               \<and> is_double x' \<and> is_double y' \<and> x \<le> x' \<and> x' \<le> y' \<and> y' \<le> y"
    if "is_double x" "is_double y" "x \<le> y"
      "float_div (float_add (Finite x) (Finite y)) (Finite 2) = Finite p" for x y p
    using that by (rule bisect64_nested)
  have run: "\<exists>x. r = Finite x \<and> a \<le> x \<and> x \<le> b"
    if bd: "\<bar>a\<bar> < 2 ^ 1023" "\<bar>b\<bar> < 2 ^ 1023"
      and r: "bisection_iterations64 f L w E I delta (Finite a) (Finite b) eps Nmax
                = Inr ((r, n), out)" for r n out
  proof -
    define P where "P s \<longleftrightarrow> (\<exists>x y. var64_a s = Finite x \<and> var64_b s = Finite y
        \<and> is_double x \<and> is_double y \<and> a \<le> x \<and> x \<le> y \<and> y \<le> b)" for s :: vars64
    let ?s0 = "\<lparr>var64_a = Finite a, var64_b = Finite b,
               var64_xr_old = float_div (float_add (Finite a) (Finite b)) (Finite 2),
               var64_eps_r = Finite 0, var64_n = 0, var64_stdout = []\<rparr>"
    have P0: "P ?s0" using assms by (simp add: P_def)
    have pres: "\<forall>s c. P s \<and> loop_body64 f L w E I delta eps Nmax s = Inr c \<longrightarrow> P (ctl_vars c)"
    proof (intro allI impI, elim conjE)
      fix s c
      assume Ps: "P s" and c: "loop_body64 f L w E I delta eps Nmax s = Inr c"
      from Ps obtain x y where xy: "var64_a s = Finite x" "var64_b s = Finite y"
        "is_double x" "is_double y" "a \<le> x" "x \<le> y" "y \<le> b"
        unfolding P_def by blast
      show "P (ctl_vars c)"
      proof (cases "var64_n s < Nmax")
        case True
        have "\<bar>x\<bar> < 2 ^ 1023" "\<bar>y\<bar> < 2 ^ 1023" using xy(5-7) bd by (simp_all add: abs_less_iff)
        from midpoint64_in_range [OF xy(3,4,6) this]
        obtain p where "float_div (float_add (Finite x) (Finite y)) (Finite 2) = Finite p" .
        from bisect64_nested [OF xy(3,4,6) this, of f L w E I delta]
        obtain x' y' where b: "bisect64 f (Finite x) (Finite y) L w E I delta = (Finite x', Finite y')"
          "is_double x'" "is_double y'" "x \<le> x'" "x' \<le> y'" "y' \<le> y" by blast
        from loop_body64_interval [OF True c] b(1) xy(1,2)
        have "var64_a (ctl_vars c) = Finite x'" "var64_b (ctl_vars c) = Finite y'" by simp_all
        then show ?thesis unfolding P_def using b(2-6) xy(5,7) by auto
      next
        case False
        then have "Nmax < var64_n s + 1" by simp
        from loop_body64_cap [OF this, of f L w E I delta eps] c
        have "var64_a (ctl_vars c) = var64_a s" "var64_b (ctl_vars c) = var64_b s" by auto
        then show ?thesis using Ps unfolding P_def by simp
      qed
    qed
    from r obtain s' where s': "bisection_loop64 f L w E I delta eps Nmax ?s0 = Inr s'"
      and rr: "r = float_div (float_add (var64_a s') (var64_b s')) (Finite 2)"
      unfolding bisection_iterations64_def by (auto split: sum.splits)
    from bisection_loop64_invariant [of f L w E I delta eps Nmax ?s0 s' P, OF s' P0 pres]
    obtain x y where xy: "var64_a s' = Finite x" "var64_b s' = Finite y"
        "is_double x" "is_double y" "a \<le> x" "x \<le> y" "y \<le> b"
      unfolding P_def by blast
    have "\<bar>x\<bar> < 2 ^ 1023" "\<bar>y\<bar> < 2 ^ 1023" using xy(5-7) bd by (simp_all add: abs_less_iff)
    from midpoint64_in_range [OF xy(3,4,6) this]
    obtain p where p: "float_div (float_add (Finite x) (Finite y)) (Finite 2) = Finite p" .
    from midpoint64_nested [OF xy(3,4,6) p] have "x \<le> p" "p \<le> y" by simp_all
    then show ?thesis using rr xy(1,2,5,7) p by simp
  qed
  show ?thesis using step run by blast
qed

theorem nested_unless_midpoint_overflows_witness:
  "is_double 0 \<and> is_double 4 \<and> (0::real) \<le> 4
   \<and> \<bar>0::real\<bar> < 2 ^ 1023 \<and> \<bar>4::real\<bar> < 2 ^ 1023
   \<and> float_div (float_add (Finite 0) (Finite 4)) (Finite 2) = Finite 2
   \<and> bisect64 (step_at (3 / 2)) (Finite 0) (Finite 4) (Finite 1) (Finite 1) (Finite 1)
        (Finite 1) (Finite 0) = (Finite 0, Finite 2)
   \<and> bisection_iterations64 (step_at (3 / 2)) (Finite 1) (Finite 1) (Finite 1) (Finite 1)
        (Finite 0) (Finite 0) (Finite 4) (Finite (1 / 8192)) 1
      = Inr ((Finite 1, 2), [''Maximum iteration number reached!''])
   \<and> (0::real) \<le> 1 \<and> (1::real) \<le> 4"
proof -
  have d: "is_double 0" "is_double 4" by (simp_all add: is_double_def round_double_small)
  have le: "(0::real) \<le> 4" by simp
  have bd: "\<bar>0::real\<bar> < 2 ^ 1023 \<and> \<bar>4::real\<bar> < 2 ^ 1023" by simp
  have m: "float_div (float_add (Finite 0) (Finite 4)) (Finite 2) = Finite 2"
    by (simp add: round_double_small)
  have b: "bisect64 (step_at (3 / 2)) (Finite 0) (Finite 4) (Finite 1) (Finite 1) (Finite 1)
        (Finite 1) (Finite 0) = (Finite 0, Finite 2)"
    by (simp add: bisect64_def sgn64_def float_gt_def Let_def round_double_small)
  have r: "bisection_iterations64 (step_at (3 / 2)) (Finite 1) (Finite 1) (Finite 1) (Finite 1)
        (Finite 0) (Finite 0) (Finite 4) (Finite (1 / 8192)) 1
      = Inr ((Finite 1, 2), [''Maximum iteration number reached!''])"
    by (simp add: run64_defs round_double_small)
  note inst = nested_unless_midpoint_overflows [OF d le, of "step_at (3 / 2)" "Finite 1" "Finite 1"
      "Finite 1" "Finite 1" "Finite 0" "Finite (1 / 8192)" 1]
  from inst [THEN conjunct2] bd r have "\<exists>x. Finite 1 = Finite x \<and> 0 \<le> x \<and> x \<le> 4" by blast
  then have "(0::real) \<le> 1 \<and> (1::real) \<le> 4" by simp
  then show ?thesis using d le bd m b r by blast
qed

text \<open>
  Where the estimate leaves the interval: \<open>a = 2\<^sup>1\<^sup>0\<^sup>2\<^sup>3\<close> and \<open>b = 1.5 * 2\<^sup>1\<^sup>0\<^sup>2\<^sup>3\<close>
  are doubles, the callback changes sign between them, and \<open>a + b\<close> overflows: the
  midpoint is \<^verbatim>\<open>inf\<close>, every relative error is NaN, the run ends at the cap and returns
  \<^verbatim>\<open>inf\<close>.
\<close>

theorem estimate_escapes_on_overflow:
  "is_double (2 ^ 1023) \<and> is_double (3 * 2 ^ 1022) \<and> (2 ^ 1023 :: real) \<le> 3 * 2 ^ 1022
   \<and> float_add (Finite (2 ^ 1023)) (Finite (3 * 2 ^ 1022)) = PosInf
   \<and> bisection_iterations64 (step_at (5 * 2 ^ 1021)) (Finite 1) (Finite 1) (Finite 1)
        (Finite 1) (Finite 0) (Finite (2 ^ 1023)) (Finite (3 * 2 ^ 1022))
        (Finite (1 / 8192)) 1
      = Inr ((PosInf, 2), [''Maximum iteration number reached!''])"
proof -
  define A B C :: real where "A = 2 ^ 1023" and "B = 3 * 2 ^ 1022" and "C = 5 * 2 ^ 1021"
  have dA: "is_double A"
    unfolding is_double_def A_def using round_double_exact [of 1023 1] by simp
  have dB: "is_double B"
    unfolding is_double_def B_def using round_double_exact [of 1022 3] by simp
  have "nearest (of_int 5 * 2 powi 1022) = of_int 5 * 2 powi 1022"
    by (rule nearest_grid) simp_all
  then have "nearest (A + B) = 5 * 2 ^ 1022" by (simp add: A_def B_def)
  then have s': "round_double (A + B) = PosInf" by (simp add: round_double_def)
  then have s: "float_add (Finite A) (Finite B) = PosInf" by simp
  have lt: "A < C" "A \<le> B" by (simp_all add: A_def B_def C_def)
  have r: "bisection_iterations64 (step_at C) (Finite 1) (Finite 1) (Finite 1)
        (Finite 1) (Finite 0) (Finite A) (Finite B) (Finite (1 / 8192)) 1
      = Inr ((PosInf, 2), [''Maximum iteration number reached!''])"
    by (simp add: run64_defs lt s')
  show ?thesis
    using dA dB lt(2) s r unfolding A_def B_def C_def by blast
qed

end
